theory Spec2Isabelle
  imports Complex_Main "HOL-Library.Sublist"
begin

section \<open>Python strings\<close>

text \<open>
  A Python \<open>str\<close> is modelled as a \<open>string\<close> of code points below 128. Characters from
  128 up are kept as inert characters: they have no case, are no whitespace and are no
  word characters. Whitespace is what \<open>str.strip()\<close>, \<open>str.isspace()\<close> and the regular
  expression class \<open>\s\<close> agree on for such text: the codes 9 to 13, 28 to 31 and 32.
\<close>

definition isspace :: "char \<Rightarrow> bool" where
  "isspace c = (let n = (of_char c :: nat) in (9 \<le> n \<and> n \<le> 13) \<or> (28 \<le> n \<and> n \<le> 32))"

definition isword :: "char \<Rightarrow> bool" where
  \<comment> \<open>the regular expression class \<open>\w\<close>: letters, digits and the underscore\<close>
  "isword c = (let n = (of_char c :: nat) in
     (48 \<le> n \<and> n \<le> 57) \<or> (65 \<le> n \<and> n \<le> 90) \<or> n = 95 \<or> (97 \<le> n \<and> n \<le> 122))"

definition lower_char :: "char \<Rightarrow> char" where
  "lower_char c = (let n = (of_char c :: nat) in if 65 \<le> n \<and> n \<le> 90 then char_of (n + 32) else c)"


definition lower :: "string \<Rightarrow> string" where
  "lower s = map lower_char s"


definition lstrip :: "string \<Rightarrow> string" where
  "lstrip s = dropWhile isspace s"

definition rstrip :: "string \<Rightarrow> string" where
  "rstrip s = rev (dropWhile isspace (rev s))"

definition strip :: "string \<Rightarrow> string" where
  "strip s = rstrip (lstrip s)"


definition startswith :: "string \<Rightarrow> string \<Rightarrow> bool" where
  \<comment> \<open>\<open>s.startswith(p)\<close>, the prefix first\<close>
  "startswith p s = (take (length p) s = p)"


fun contains :: "string \<Rightarrow> string \<Rightarrow> bool" where
  \<comment> \<open>\<open>p in s\<close>\<close>
  "contains p [] = startswith p []"
| "contains p (c # cs) = (startswith p (c # cs) \<or> contains p cs)"

fun split :: "string \<Rightarrow> string \<Rightarrow> string list" where
  \<comment> \<open>\<open>s.split(sep)\<close> for a separator that is not empty (Python raises on an empty one)\<close>
  "split sep [] = [[]]"
| "split sep (c # cs) =
     (if startswith sep (c # cs) then [] # split sep (drop (length sep - 1) cs)
      else (let ps = split sep cs in (c # hd ps) # tl ps))"

fun count :: "string \<Rightarrow> string \<Rightarrow> nat" where
  \<comment> \<open>\<open>s.count(p)\<close>, the occurrences that do not overlap, for a pattern that is not empty\<close>
  "count p [] = 0"
| "count p (c # cs) =
     (if startswith p (c # cs) then Suc (count p (drop (length p - 1) cs)) else count p cs)"

fun join :: "string \<Rightarrow> string list \<Rightarrow> string" where
  \<comment> \<open>\<open>sep.join(xs)\<close>\<close>
  "join sep [] = []"
| "join sep [x] = x"
| "join sep (x # y # ys) = x @ sep @ join sep (y # ys)"



section \<open>Regular expressions of the source\<close>

text \<open>
  The source searches with fixed patterns. Each pattern is written out as the matcher that
  Python's backtracking engine runs for it: \<open>re.search\<close> tries the start positions from
  the left and returns the first match. A greedy \<open>\s*\<close> is read as the longest run of
  whitespace: what follows it in these patterns starts with a character that is no
  whitespace or, for the lazy group, matches exactly when a fence follows somewhere
  (lemma \<open>lazy_none_iff\<close>), so giving whitespace back never turns a failure into a match.
\<close>

definition ci_startswith :: "string \<Rightarrow> string \<Rightarrow> bool" where
  \<comment> \<open>a literal matched under \<open>re.IGNORECASE\<close>\<close>
  "ci_startswith p s = (length p \<le> length s \<and> lower (take (length p) s) = lower p)"

definition fence :: string where
  "fence = ''```''"

fun lazy_until_fence :: "string \<Rightarrow> string option" where
  \<comment> \<open>the tail \<open>(.*?)\s*```\<close> under \<open>re.DOTALL\<close>: the group grows one character at a time
      until whitespace and the closing fence follow; the result is the group\<close>
  "lazy_until_fence [] = None"
| "lazy_until_fence (c # cs) =
     (if startswith fence (dropWhile isspace (c # cs)) then Some []
      else map_option ((#) c) (lazy_until_fence cs))"

definition match_sql_block :: "string \<Rightarrow> string option" where
  \<comment> \<open>\<open>```sql\s*(.*?)\s*```\<close> with \<open>re.DOTALL | re.IGNORECASE\<close>, matched at the head of the text\<close>
  "match_sql_block s =
     (if ci_startswith ''```sql'' s then lazy_until_fence (dropWhile isspace (drop 6 s)) else None)"

definition match_code_block :: "string \<Rightarrow> string option" where
  \<comment> \<open>\<open>```\s*(.*?)\s*```\<close> with \<open>re.DOTALL\<close>, matched at the head of the text\<close>
  "match_code_block s =
     (if startswith fence s then lazy_until_fence (dropWhile isspace (drop 3 s)) else None)"

fun re_search :: "(string \<Rightarrow> 'a option) \<Rightarrow> string \<Rightarrow> 'a option" where
  \<comment> \<open>\<open>re.search\<close>: the leftmost start position at which the matcher succeeds\<close>
  "re_search m [] = m []"
| "re_search m (c # cs) = (case m (c # cs) of Some g \<Rightarrow> Some g | None \<Rightarrow> re_search m cs)"

fun wordc :: "char option \<Rightarrow> bool" where
  "wordc None = False"
| "wordc (Some c) = isword c"

definition boundary :: "char option \<Rightarrow> char option \<Rightarrow> bool" where
  \<comment> \<open>\<open>\b\<close> between two neighbours; \<open>None\<close> is the outside of the text\<close>
  "boundary a b = (wordc a \<noteq> wordc b)"

definition first_char :: "string \<Rightarrow> char option" where
  "first_char s = (case s of [] \<Rightarrow> None | c # _ \<Rightarrow> Some c)"

definition last_char :: "char option \<Rightarrow> string \<Rightarrow> char option" where
  \<comment> \<open>the character before the position reached after reading \<open>m\<close>\<close>
  "last_char prev m = (if m = [] then prev else Some (last m))"

definition lit :: "bool \<Rightarrow> string \<Rightarrow> string \<Rightarrow> bool" where
  \<comment> \<open>a literal at the head of the text; the flag is \<open>re.IGNORECASE\<close>\<close>
  "lit ci p s = (if ci then ci_startswith p s else startswith p s)"

definition match_keyword :: "bool \<Rightarrow> string list \<Rightarrow> char option \<Rightarrow> string \<Rightarrow> bool" where
  \<comment> \<open>\<open>\b(w1|...|wn)\b\<close> at the head of the text, \<open>prev\<close> the character before it\<close>
  "match_keyword ci ws prev s =
     (boundary prev (first_char s) \<and>
      list_ex (\<lambda>w. lit ci w s \<and>
                 boundary (last_char prev (take (length w) s)) (first_char (drop (length w) s))) ws)"

definition match_separator :: "string list \<Rightarrow> char option \<Rightarrow> string \<Rightarrow> bool" where
  \<comment> \<open>\<open>;\s*(w1|...|wn)\<close> under \<open>re.IGNORECASE\<close>; the words start with a letter, so only the
      longest run of whitespace can be followed by one\<close>
  "match_separator ws prev s =
     (case s of [] \<Rightarrow> False
      | c # cs \<Rightarrow> c = CHR '';'' \<and> list_ex (\<lambda>w. ci_startswith w (dropWhile isspace cs)) ws)"

definition match_line_comment :: "char option \<Rightarrow> string \<Rightarrow> bool" where
  \<comment> \<open>\<open>--\<close>\<close>
  "match_line_comment prev s = startswith ''--'' s"

definition match_block_comment :: "char option \<Rightarrow> string \<Rightarrow> bool" where
  \<comment> \<open>\<open>/\*.*?\*/\<close> under \<open>re.DOTALL\<close>\<close>
  "match_block_comment prev s = (startswith ''/*'' s \<and> contains ''*/'' (drop 2 s))"

definition match_union :: "char option \<Rightarrow> string \<Rightarrow> bool" where
  \<comment> \<open>\<open>union\s+select.*--\<close> under \<open>re.IGNORECASE | re.DOTALL\<close>\<close>
  "match_union prev s =
     (ci_startswith ''union'' s \<and>
      (let r = drop 5 s in
         (case r of [] \<Rightarrow> False | c # _ \<Rightarrow> isspace c) \<and>
         ci_startswith ''select'' (dropWhile isspace r) \<and>
         contains ''--'' (drop 6 (dropWhile isspace r))))"

fun re_test :: "(char option \<Rightarrow> string \<Rightarrow> bool) \<Rightarrow> char option \<Rightarrow> string \<Rightarrow> bool" where
  \<comment> \<open>whether \<open>re.search\<close> finds a match: some start position at which the matcher succeeds\<close>
  "re_test m prev [] = m prev []"
| "re_test m prev (c # cs) = (m prev (c # cs) \<or> re_test m (Some c) cs)"

section \<open>SQLChainManager: cleaning the generated text\<close>

text \<open>
  \<open>_clean_sql_output\<close> is a static method without effects; its \<open>lru_cache\<close> only keeps
  results and is left out.
\<close>

definition clean_sql_output :: "string \<Rightarrow> string" where
  "clean_sql_output raw_output =
     (let result = strip raw_output;
          result = (if contains ''<think>'' result \<and> contains ''</think>'' result
                    then (let parts = split ''</think>'' result
                          in if length parts > 1 then strip (parts ! 1) else result)
                    else result)
      in case re_search match_sql_block result of
           Some g \<Rightarrow> strip g
         | None \<Rightarrow>
             (case re_search match_code_block result of
                Some g \<Rightarrow> strip g
              | None \<Rightarrow> result))"

section \<open>Query validation\<close>

definition generated_dangerous :: "string list" where
  "generated_dangerous =
     [''drop'', ''delete'', ''update'', ''insert'', ''alter'', ''create'', ''truncate'']"

definition direct_dangerous :: "string list" where
  "direct_dangerous =
     [''drop'', ''delete'', ''update'', ''insert'', ''alter'', ''create'', ''truncate'', ''exec'',
      ''execute'']"

definition dangerous_patterns :: "(char option \<Rightarrow> string \<Rightarrow> bool) list" where
  "dangerous_patterns =
     [match_keyword True direct_dangerous,
      match_separator direct_dangerous,
      match_line_comment,
      match_block_comment,
      match_union,
      match_separator [''shutdown'']]"

definition validate_sql_query :: "string \<Rightarrow> bool" where
  "validate_sql_query sql =
     (let sql_lower = strip (lower sql) in
        if list_ex (\<lambda>pattern. re_test pattern None sql_lower) dangerous_patterns then False
        else if \<not> startswith ''select'' sql_lower then False
        else if contains ''select'' (drop 6 sql_lower) \<and> 2 < count ''select'' sql_lower then False
        else True)"

definition validate_generated_sql :: "string \<Rightarrow> bool" where
  "validate_generated_sql sql =
     (let sql_lower = strip (lower sql) in
        if \<not> startswith ''select'' sql_lower then False
        else if list_ex (\<lambda>word. re_test (match_keyword False [word]) None sql_lower)
                  generated_dangerous then False
        else True)"

section \<open>The store and DuckDBService\<close>

text \<open>
  The store is the database behind \<open>connect\<close>: opening a connection may raise, and
  \<open>conn.execute(sql).fetchdf()\<close> answers a statement with a data frame or raises. A cell
  of a data frame is kept as the text that an f-string renders for it. A trace of events
  records what a function does to the store and to the text generator. The attribute
  \<open>self.connection\<close>, which keeps the closed connection, is read by none of the functions
  below and is left out.
\<close>

record dataframe =
  columns :: "string list"
  rows :: "string list list"

record store =
  connect_error :: "string option"
  run :: "string \<Rightarrow> string + dataframe"

datatype error = RuntimeError string | ValueError string | KeyError string | StoreError string

fun str_error :: "error \<Rightarrow> string" where
  \<comment> \<open>\<open>str(e)\<close>\<close>
  "str_error (RuntimeError m) = m"
| "str_error (ValueError m) = m"
| "str_error (StoreError m) = m"
| "str_error (KeyError k) = [CHR 0x27] @ k @ [CHR 0x27]"

datatype event = Connect | Exec string | Close | Invoke string string

record duckdb_service =
  db :: store
  max_rows :: int

definition set_threads :: string where
  "set_threads = ''SET threads = 1''"

definition set_memory_limit :: string where
  "set_memory_limit = ''SET memory_limit = '' @ [CHR 0x27] @ ''512MB'' @ [CHR 0x27]"

definition execute :: "store \<Rightarrow> string \<Rightarrow> (error + dataframe) \<times> event list" where
  \<comment> \<open>\<open>conn.execute(sql).fetchdf()\<close>\<close>
  "execute st sql = (case run st sql of Inl e \<Rightarrow> Inl (StoreError e) | Inr df \<Rightarrow> Inr df, [Exec sql])"

definition open_connection :: "store \<Rightarrow> (error + unit) \<times> event list" where
  \<comment> \<open>\<open>_get_connection\<close> up to its \<open>yield\<close>\<close>
  "open_connection st =
     (case connect_error st of
        Some e \<Rightarrow> (Inl (RuntimeError (''Failed to initialize DuckDB connection: '' @ e)), [Connect])
      | None \<Rightarrow>
          (case execute st set_threads of
             (Inl e, ev) \<Rightarrow>
               (Inl (RuntimeError (''Failed to initialize DuckDB connection: '' @ str_error e)),
                Connect # ev)
           | (Inr _, ev) \<Rightarrow>
               (case execute st set_memory_limit of
                  (Inl e, ev') \<Rightarrow>
                    (Inl (RuntimeError
                       (''Failed to initialize DuckDB connection: '' @ str_error e)),
                     Connect # ev @ ev')
                | (Inr _, ev') \<Rightarrow> (Inr (), Connect # ev @ ev'))))"

definition get_connection ::
  "store \<Rightarrow> (error + 'a) \<times> event list \<Rightarrow> (error + 'a) \<times> event list" where
  \<comment> \<open>\<open>with self._get_connection() as conn: body\<close>; the connection is closed on every way
      out of the body\<close>
  "get_connection st body =
     (case open_connection st of
        (Inl e, ev) \<Rightarrow> (Inl e, ev)
      | (Inr _, ev) \<Rightarrow> (fst body, ev @ snd body @ [Close]))"



definition df_empty :: "dataframe \<Rightarrow> bool" where
  \<comment> \<open>\<open>df.empty\<close>: some axis has length zero\<close>
  "df_empty df = (columns df = [] \<or> rows df = [])"

definition cell :: "dataframe \<Rightarrow> string list \<Rightarrow> string \<Rightarrow> error + string" where
  \<comment> \<open>\<open>row[key]\<close>\<close>
  "cell df r key = (case map_of (zip (columns df) r) key of None \<Rightarrow> Inl (KeyError key) | Some v \<Rightarrow> Inr v)"

fun df_column :: "dataframe \<Rightarrow> string \<Rightarrow> string list list \<Rightarrow> error + string list" where
  \<comment> \<open>\<open>df[key]\<close>, read row by row\<close>
  "df_column df key [] = (if key \<in> set (columns df) then Inr [] else Inl (KeyError key))"
| "df_column df key (r # rs) =
     (case cell df r key of
        Inl e \<Rightarrow> Inl e
      | Inr v \<Rightarrow> (case df_column df key rs of Inl e \<Rightarrow> Inl e | Inr vs \<Rightarrow> Inr (v # vs)))"

fun column_entries :: "dataframe \<Rightarrow> string list list \<Rightarrow> error + string list" where
  \<comment> \<open>the generator \<open>f"{row['column_name']} ({row['column_type']})"\<close> over the rows\<close>
  "column_entries df [] = Inr []"
| "column_entries df (r # rs) =
     (case cell df r ''column_name'' of
        Inl e \<Rightarrow> Inl e
      | Inr n \<Rightarrow>
          (case cell df r ''column_type'' of
             Inl e \<Rightarrow> Inl e
           | Inr t \<Rightarrow>
               (case column_entries df rs of
                  Inl e \<Rightarrow> Inl e
                | Inr xs \<Rightarrow> Inr ((n @ '' ('' @ t @ '')'') # xs))))"

definition describe_table :: "store \<Rightarrow> string \<Rightarrow> error + string" where
  \<comment> \<open>the inner \<open>try\<close> block of \<open>get_table_info\<close>\<close>
  "describe_table st table_name =
     (case fst (execute st (''DESCRIBE '' @ table_name)) of
        Inl e \<Rightarrow> Inl e
      | Inr columns_df \<Rightarrow>
          (case column_entries columns_df (rows columns_df) of
             Inl e \<Rightarrow> Inl e
           | Inr entries \<Rightarrow>
               Inr (''Table: '' @ table_name @ ''\<newline>Columns: '' @ join '', '' entries)))"

definition table_section :: "store \<Rightarrow> string \<Rightarrow> string" where
  \<comment> \<open>one turn of the loop over the table names, with its \<open>except\<close> branch\<close>
  "table_section st table_name =
     (case describe_table st table_name of
        Inl e \<Rightarrow> ''Table: '' @ table_name @ ''\<newline>Columns: [Error retrieving schema]''
      | Inr s \<Rightarrow> s)"

definition table_info_body :: "store \<Rightarrow> (error + string) \<times> event list" where
  \<comment> \<open>the body of the \<open>with\<close> block of \<open>get_table_info\<close>\<close>
  "table_info_body st =
     (case execute st ''SHOW TABLES'' of
        (Inl e, ev) \<Rightarrow> (Inl e, ev)
      | (Inr tables_df, ev) \<Rightarrow>
          if df_empty tables_df then (Inr ''No tables found in database.'', ev)
          else (case df_column tables_df ''name'' (rows tables_df) of
                  Inl e \<Rightarrow> (Inl e, ev)
                | Inr names \<Rightarrow>
                    (Inr (join ''\<newline>\<newline>'' (map (table_section st) names)),
                     ev @ map (\<lambda>table_name. Exec (''DESCRIBE '' @ table_name)) names)))"

definition get_table_info :: "duckdb_service \<Rightarrow> (error + string) \<times> event list" where
  \<comment> \<open>the outer \<open>except Exception\<close> turns every failure into a returned text\<close>
  "get_table_info self =
     (case get_connection (db self) (table_info_body (db self)) of
        (Inl e, ev) \<Rightarrow> (Inr (''Error retrieving schema: '' @ str_error e), ev)
      | (Inr schema, ev) \<Rightarrow> (Inr schema, ev))"

section \<open>SQLChainManager\<close>

text \<open>
  The clock is read as a real number of seconds. The chain \<open>self.chain.invoke\<close> is the
  text generator: it answers a schema and a question with a text or raises.
\<close>

record sql_chain_manager =
  db_service :: duckdb_service
  chain :: "string \<Rightarrow> string \<Rightarrow> string + string"
  cached_schema :: "string option"
  schema_cache_time :: "real option"
  cache_ttl :: real

definition init :: "(string \<Rightarrow> string \<Rightarrow> string + string) \<Rightarrow> duckdb_service \<Rightarrow> sql_chain_manager" where
  "init c svc =
     \<lparr>db_service = svc, chain = c, cached_schema = None, schema_cache_time = None,
      cache_ttl = 300\<rparr>"

definition refresh_schema ::
  "sql_chain_manager \<Rightarrow> real \<Rightarrow> (error + string) \<times> sql_chain_manager \<times> event list" where
  \<comment> \<open>the \<open>try\<close> block of \<open>_get_schema_info\<close>\<close>
  "refresh_schema self current_time =
     (case get_table_info (db_service self) of
        (Inl e, ev) \<Rightarrow>
          (Inl (RuntimeError (''Failed to retrieve schema info: '' @ str_error e)), self, ev)
      | (Inr schema, ev) \<Rightarrow>
          (Inr schema,
           self\<lparr>cached_schema := Some schema, schema_cache_time := Some current_time\<rparr>, ev))"

definition get_schema_info ::
  "sql_chain_manager \<Rightarrow> real \<Rightarrow> (error + string) \<times> sql_chain_manager \<times> event list" where
  "get_schema_info self current_time =
     (case cached_schema self of
        None \<Rightarrow> refresh_schema self current_time
      | Some schema \<Rightarrow>
          (case schema_cache_time self of
             None \<Rightarrow> refresh_schema self current_time
           | Some t \<Rightarrow>
               if current_time - t > cache_ttl self then refresh_schema self current_time
               else (Inr schema, self, [])))"

definition natural_language_to_sql ::
  "sql_chain_manager \<Rightarrow> string \<Rightarrow> real \<Rightarrow> (error + string) \<times> sql_chain_manager \<times> event list" where
  \<comment> \<open>\<open>current_time\<close> is the clock as \<open>_get_schema_info\<close> reads it\<close>
  "natural_language_to_sql self question current_time =
     (case get_schema_info self current_time of
        (Inl e, self', ev) \<Rightarrow>
          (Inl (RuntimeError (''Failed to generate SQL query: '' @ str_error e)), self', ev)
      | (Inr schema, self', ev) \<Rightarrow>
          (case chain self' schema question of
             Inl e \<Rightarrow>
               (Inl (RuntimeError (''Failed to generate SQL query: '' @ e)), self',
                ev @ [Invoke schema question])
           | Inr raw_result \<Rightarrow>
               (let cleaned_sql = clean_sql_output raw_result in
                  if \<not> validate_generated_sql cleaned_sql
                  then (Inl (RuntimeError
                          (''Failed to generate SQL query: '' @
                           str_error (ValueError ''Generated SQL failed validation''))),
                        self', ev @ [Invoke schema question])
                  else (Inr cleaned_sql, self', ev @ [Invoke schema question]))))"

definition clear_cache :: "sql_chain_manager \<Rightarrow> sql_chain_manager" where
  "clear_cache self = self\<lparr>cached_schema := None, schema_cache_time := None\<rparr>"

section \<open>Vocabulary of the properties\<close>

text \<open>
  The definitions of this section do not come from the source. They name what the
  properties below talk about: the stages of \<open>_clean_sql_output\<close>, a keyword standing as a
  whole word in a text, and what a trace of events shows.
\<close>

definition stripped :: "string \<Rightarrow> bool" where
  \<comment> \<open>no whitespace at either end\<close>
  "stripped s = (s = [] \<or> (\<not> isspace (hd s) \<and> \<not> isspace (last s)))"

definition think_step :: "string \<Rightarrow> string" where
  \<comment> \<open>the second step of \<open>_clean_sql_output\<close>: dropping the reasoning part\<close>
  "think_step result = (if contains ''<think>'' result \<and> contains ''</think>'' result
                    then (let parts = split ''</think>'' result
                          in if length parts > 1 then strip (parts ! 1) else result)
                    else result)"

definition extract_block :: "string \<Rightarrow> string" where
  \<comment> \<open>the last step of \<open>_clean_sql_output\<close>: taking the text of a fence\<close>
  "extract_block result = (case re_search match_sql_block result of
           Some g \<Rightarrow> strip g
         | None \<Rightarrow>
             (case re_search match_code_block result of
                Some g \<Rightarrow> strip g
              | None \<Rightarrow> result))"

definition think_free :: "string \<Rightarrow> bool" where
  \<comment> \<open>the text does not hold both markers of a reasoning part\<close>
  "think_free s = (\<not> (sublist ''<think>'' s \<and> sublist ''</think>'' s))"

definition whole_word_at :: "string \<Rightarrow> string \<Rightarrow> nat \<Rightarrow> bool" where
  \<comment> \<open>the lower-case word \<open>w\<close> stands at index \<open>i\<close> of \<open>s\<close>, in any case, with no word
      character before it and none after it\<close>
  "whole_word_at w s i =
     (let pre = take i s; m = take (length w) (drop i s); post = drop (i + length w) s
      in lower m = w \<and> (pre = [] \<or> \<not> isword (last pre)) \<and> (post = [] \<or> \<not> isword (hd post)))"

definition contains_word :: "string \<Rightarrow> string \<Rightarrow> bool" where
  \<comment> \<open>the text holds the word as a whole word, in any case\<close>
  "contains_word w s = list_ex (whole_word_at w s) [0..<Suc (length s)]"

definition keyword_count :: "string \<Rightarrow> string \<Rightarrow> nat" where
  \<comment> \<open>the number of places at which the word stands as a whole word\<close>
  "keyword_count w s = length (filter (whole_word_at w s) [0..<Suc (length s)])"

fun occurrences :: "string \<Rightarrow> string \<Rightarrow> nat" where
  \<comment> \<open>the number of places at which the pattern starts, overlaps counted\<close>
  "occurrences p [] = 0"
| "occurrences p (c # cs) = (if startswith p (c # cs) then 1 else 0) + occurrences p cs"

definition connection_opens :: "store \<Rightarrow> bool" where
  \<comment> \<open>\<open>connect\<close> and the two settings of \<open>_get_connection\<close> do not raise\<close>
  "connection_opens st =
     (connect_error st = None
      \<and> (case run st set_threads of Inl _ \<Rightarrow> False | Inr _ \<Rightarrow> True)
      \<and> (case run st set_memory_limit of Inl _ \<Rightarrow> False | Inr _ \<Rightarrow> True))"

definition introspections :: "event list \<Rightarrow> nat" where
  \<comment> \<open>every call of \<open>get_table_info\<close> opens one connection\<close>
  "introspections ev = length (filter (\<lambda>e. e = Connect) ev)"

fun is_invoke :: "event \<Rightarrow> bool" where
  "is_invoke (Invoke _ _) = True"
| "is_invoke _ = False"

definition generation_calls :: "event list \<Rightarrow> nat" where
  \<comment> \<open>the calls of \<open>self.chain.invoke\<close> in a trace\<close>
  "generation_calls ev = length (filter is_invoke ev)"

fun executed :: "event list \<Rightarrow> string list" where
  \<comment> \<open>the statements given to \<open>conn.execute\<close>, in order\<close>
  "executed [] = []"
| "executed (Exec s # ev) = s # executed ev"
| "executed (_ # ev) = executed ev"

definition fresh :: "sql_chain_manager \<Rightarrow> real \<Rightarrow> bool" where
  \<comment> \<open>a schema is cached and its age is at most the time to live\<close>
  "fresh self now =
     (case (cached_schema self, schema_cache_time self) of
        (Some _, Some t) \<Rightarrow> now - t \<le> cache_ttl self
      | _ \<Rightarrow> False)"

definition lists_columns :: "dataframe \<Rightarrow> (string \<times> string) list \<Rightarrow> bool" where
  \<comment> \<open>the rows of a DESCRIBE answer give these column names and types, in order\<close>
  "lists_columns df cols =
     (map (\<lambda>r. (map_of (zip (columns df) r) ''column_name'',
                 map_of (zip (columns df) r) ''column_type'')) (rows df)
      = map (\<lambda>(c, t). (Some c, Some t)) cols)"

definition column_entry :: "string \<times> string \<Rightarrow> string" where
  "column_entry ct = fst ct @ '' ('' @ snd ct @ '')''"

definition normal_section :: "string \<Rightarrow> (string \<times> string) list \<Rightarrow> string" where
  \<comment> \<open>the section of a table that could be described\<close>
  "normal_section name cols =
     ''Table: '' @ name @ ''\<newline>Columns: '' @ join '', '' (map column_entry cols)"

definition placeholder_section :: "string \<Rightarrow> string" where
  \<comment> \<open>the section of a table that could not be described\<close>
  "placeholder_section name = ''Table: '' @ name @ ''\<newline>Columns: [Error retrieving schema]''"

definition fenced :: "string \<Rightarrow> string \<Rightarrow> string \<Rightarrow> string" where
  \<comment> \<open>a prefix, the SQL text in a fence labelled sql, a suffix\<close>
  "fenced pre sql suf = pre @ ''```sql\<newline>'' @ sql @ ''\<newline>```'' @ suf"

section \<open>Sample stores and managers\<close>

definition table_listing :: dataframe where
  "table_listing = \<lparr>columns = [''name''], rows = [[''users''], [''orders'']]\<rparr>"

definition users_columns :: dataframe where
  "users_columns =
     \<lparr>columns = [''column_name'', ''column_type'', ''null''],
      rows = [[''id'', ''INTEGER'', ''YES''], [''name'', ''VARCHAR'', ''YES'']]\<rparr>"

definition sample_run :: "string \<Rightarrow> string + dataframe" where
  "sample_run q =
     (if q = ''SHOW TABLES'' then Inr table_listing
      else if q = ''DESCRIBE users'' then Inr users_columns
      else if q = ''DESCRIBE orders'' then Inl ''Catalog Error''
      else if startswith ''SELECT'' q
        then Inr \<lparr>columns = [''id'', ''name''], rows = [[''1'', ''Alice''], [''2'', ''Bob'']]\<rparr>
      else Inr \<lparr>columns = [], rows = []\<rparr>)"

definition sample_service :: duckdb_service where
  "sample_service = \<lparr>db = \<lparr>connect_error = None, run = sample_run\<rparr>, max_rows = 100\<rparr>"

definition empty_run :: "string \<Rightarrow> string + dataframe" where
  "empty_run q = Inr \<lparr>columns = [''name''], rows = []\<rparr>"

definition empty_service :: duckdb_service where
  "empty_service = \<lparr>db = \<lparr>connect_error = None, run = empty_run\<rparr>, max_rows = 100\<rparr>"

definition down_service :: duckdb_service where
  "down_service = \<lparr>db = \<lparr>connect_error = Some ''IO Error'', run = sample_run\<rparr>, max_rows = 100\<rparr>"

definition rejecting_chain :: "string \<Rightarrow> string \<Rightarrow> string + string" where
  "rejecting_chain schema question = Inr ''DROP TABLE users;''"

definition users_cols :: "string \<Rightarrow> (string \<times> string) list" where
  "users_cols u = [(''id'', ''INTEGER''), (''name'', ''VARCHAR'')]"

definition sample_manager :: sql_chain_manager where
  "sample_manager = init rejecting_chain sample_service"

definition cached_manager :: sql_chain_manager where
  "cached_manager = sample_manager\<lparr>cached_schema := Some ''Table: users'', schema_cache_time := Some 0\<rparr>"

definition accepting_chain :: "string \<Rightarrow> string \<Rightarrow> string + string" where
  "accepting_chain schema question = Inr ''SELECT * FROM users;''"

definition unreachable_manager :: sql_chain_manager where
  "unreachable_manager = init accepting_chain down_service"




section \<open>Characters, stripping and searching\<close>

lemma isspace_not_word: "isspace c \<Longrightarrow> \<not> isword c"
  by (auto simp: isspace_def isword_def Let_def)

lemma of_char_lower_char:
  "(of_char (lower_char c) :: nat) = (if 65 \<le> (of_char c :: nat) \<and> (of_char c :: nat) \<le> 90 then of_char c + 32 else of_char c)"
  by (simp add: lower_char_def Let_def)

lemma isword_lower [simp]: "isword (lower_char c) = isword c"
  unfolding isword_def Let_def of_char_lower_char by auto

lemma isspace_lower [simp]: "isspace (lower_char c) = isspace c"
  unfolding isspace_def Let_def of_char_lower_char by auto

lemma lower_char_idem [simp]: "lower_char (lower_char c) = lower_char c"
proof -
  have "\<not> (65 \<le> (of_char (lower_char c) :: nat) \<and> (of_char (lower_char c) :: nat) \<le> 90)"
    unfolding of_char_lower_char by auto
  then show ?thesis
    by (auto simp: lower_char_def[of "lower_char c"] Let_def)
qed

lemma startswith_prefix: "startswith p s = prefix p s"
  unfolding startswith_def prefix_def
  by (metis append_eq_conv_conj append_take_drop_id)

lemma contains_sublist: "contains p s = sublist p s"
  by (induction s) (auto simp: startswith_prefix sublist_Cons_right)

lemma fence_not_space: "prefix fence s \<Longrightarrow> dropWhile isspace s = s"
  by (cases s) (auto simp: fence_def isspace_def)

lemma lazy_prefix: "lazy_until_fence s = Some g \<Longrightarrow> prefix g s"
  by (induction s arbitrary: g) (auto split: if_splits)

lemma lazy_no_fence: "lazy_until_fence s = Some g \<Longrightarrow> \<not> sublist fence g"
proof (induction s arbitrary: g)
  case Nil
  then show ?case by simp
next
  case (Cons c cs)
  show ?case
  proof (cases "startswith fence (dropWhile isspace (c # cs))")
    case True
    with Cons.prems have "g = []" by simp
    then show ?thesis by (simp add: fence_def)
  next
    case False
    with Cons.prems obtain g' where g': "lazy_until_fence cs = Some g'" "g = c # g'"
      by auto
    have nf: "\<not> sublist fence g'" using Cons.IH g'(1) by blast
    have "\<not> prefix fence (c # g')"
    proof
      assume p: "prefix fence (c # g')"
      have "prefix (c # g') (c # cs)" using lazy_prefix[OF g'(1)] by simp
      with p have pp: "prefix fence (c # cs)" by (rule prefix_order.trans)
      then have "dropWhile isspace (c # cs) = c # cs" by (rule fence_not_space)
      with pp False show False by (simp add: startswith_prefix)
    qed
    with nf show ?thesis by (simp add: g'(2) sublist_Cons_right)
  qed
qed

lemma lower_backtick: "lower_char c = CHR 0x60 \<Longrightarrow> c = CHR 0x60"
proof -
  assume a: "lower_char c = CHR 0x60"
  have "(of_char (lower_char c) :: nat) = 96" by (simp add: a)
  then have "\<not> (65 \<le> (of_char c :: nat) \<and> (of_char c :: nat) \<le> 90)"
    unfolding of_char_lower_char by (auto split: if_splits)
  then have "lower_char c = c" by (auto simp: lower_char_def Let_def)
  with a show ?thesis by simp
qed

lemma ci_sql_prefix_fence: "ci_startswith ''```sql'' s \<Longrightarrow> prefix fence s"
proof -
  assume a: "ci_startswith ''```sql'' s"
  then have len: "6 \<le> length s" by (simp add: ci_startswith_def)
  then obtain a1 a2 a3 r where s: "s = a1 # a2 # a3 # r"
    by (cases s; cases "tl s"; cases "tl (tl s)") auto
  from a have "lower_char a1 = CHR 0x60" "lower_char a2 = CHR 0x60" "lower_char a3 = CHR 0x60"
    by (auto simp: ci_startswith_def s lower_def lower_char_def[of "CHR 0x60"] Let_def)
  then show ?thesis by (auto simp: s fence_def dest!: lower_backtick)
qed

lemma no_fence_sql: "\<not> sublist fence s \<Longrightarrow> re_search match_sql_block s = None"
proof (induction s)
  case Nil
  then show ?case by (simp add: match_sql_block_def ci_startswith_def)
next
  case (Cons c cs)
  then have "\<not> prefix fence (c # cs)" "\<not> sublist fence cs"
    by (auto simp: sublist_Cons_right)
  then show ?case using Cons.IH ci_sql_prefix_fence[of "c # cs"]
    by (auto simp: match_sql_block_def)
qed

lemma no_fence_code: "\<not> sublist fence s \<Longrightarrow> re_search match_code_block s = None"
proof (induction s)
  case Nil
  then show ?case by (simp add: match_code_block_def startswith_def fence_def)
next
  case (Cons c cs)
  then have "\<not> prefix fence (c # cs)" "\<not> sublist fence cs"
    by (auto simp: sublist_Cons_right)
  then show ?case using Cons.IH
    by (auto simp: match_code_block_def startswith_prefix)
qed

lemma lstrip_suffix: "suffix (lstrip s) s"
  unfolding lstrip_def by (rule suffix_dropWhile)

lemma rstrip_prefix: "prefix (rstrip s) s"
  unfolding rstrip_def
  by (metis suffix_dropWhile suffix_to_prefix rev_rev_ident)

lemma strip_sublist: "sublist (strip s) s"
  unfolding strip_def
  by (meson lstrip_suffix rstrip_prefix prefix_imp_sublist suffix_imp_sublist sublist_order.order.trans)

lemma lstrip_idem: "s = [] \<or> \<not> isspace (hd s) \<Longrightarrow> lstrip s = s"
  by (cases s) (auto simp: lstrip_def)

lemma rstrip_idem: "s = [] \<or> \<not> isspace (last s) \<Longrightarrow> rstrip s = s"
  by (cases s rule: rev_cases) (auto simp: rstrip_def)

lemma lstrip_head: "lstrip s = [] \<or> \<not> isspace (hd (lstrip s))"
  unfolding lstrip_def by (metis hd_dropWhile)

lemma rstrip_last: "rstrip s = [] \<or> \<not> isspace (last (rstrip s))"
  unfolding rstrip_def
  by (metis hd_dropWhile last_rev rev_is_Nil_conv)

lemma rstrip_head: "rstrip s \<noteq> [] \<Longrightarrow> hd (rstrip s) = hd s"
  using rstrip_prefix[of s] by (cases "rstrip s"; cases s) (auto)

lemma strip_stripped: "stripped (strip s)"
proof (cases "strip s = []")
  case True
  then show ?thesis by (simp add: stripped_def)
next
  case False
  then have ne: "rstrip (lstrip s) \<noteq> []" by (simp add: strip_def)
  then have l: "lstrip s \<noteq> []" by (auto simp: rstrip_def)
  have "hd (strip s) = hd (lstrip s)" using rstrip_head[OF ne] by (simp add: strip_def)
  moreover have "\<not> isspace (hd (lstrip s))" using lstrip_head[of s] l by simp
  moreover have "\<not> isspace (last (strip s))" using rstrip_last[of "lstrip s"] ne by (simp add: strip_def)
  ultimately show ?thesis by (simp add: stripped_def)
qed

lemma stripped_strip: "stripped s \<Longrightarrow> strip s = s"
  unfolding stripped_def strip_def
  by (metis lstrip_idem rstrip_idem)

lemma strip_strip: "strip (strip s) = strip s"
  by (rule stripped_strip[OF strip_stripped])

lemma clean_alt: "clean_sql_output raw = extract_block (think_step (strip raw))"
  by (simp add: clean_sql_output_def extract_block_def think_step_def Let_def)

lemma split_nonempty: "split sep s \<noteq> []"
  by (induction sep s rule: split.induct) (auto simp: Let_def)

lemma split_hd_prefix: "prefix (hd (split sep s)) s"
  by (induction sep s rule: split.induct) (auto simp: Let_def)

lemma split_parts_no_sep:
  "sep \<noteq> [] \<Longrightarrow> p \<in> set (split sep s) \<Longrightarrow> \<not> sublist sep p"
proof (induction sep s arbitrary: p rule: split.induct)
  case (1 sep)
  then show ?case by simp
next
  case (2 sep c cs)
  show ?case
  proof (cases "startswith sep (c # cs)")
    case True
    with 2 show ?thesis by auto
  next
    case False
    define ps where "ps = split sep cs"
    have ne: "ps \<noteq> []" by (simp add: ps_def split_nonempty)
    from False "2.prems" have p: "p = c # hd ps \<or> p \<in> set (tl ps)"
      by (simp add: ps_def Let_def)
    have ih: "\<And>q. q \<in> set ps \<Longrightarrow> \<not> sublist sep q"
      using "2.IH"(2)[OF False] "2.prems"(1) by (simp add: ps_def)
    show ?thesis
    proof (cases "p = c # hd ps")
      case True
      have "prefix (c # hd ps) (c # cs)" using split_hd_prefix[of sep cs] by (simp add: ps_def)
      then have "\<not> prefix sep (c # hd ps)"
        using \<open>\<not> startswith sep (c # cs)\<close> prefix_order.trans[of sep "c # hd ps" "c # cs"]
        by (auto simp: startswith_prefix)
      moreover have "\<not> sublist sep (hd ps)" using ih ne by simp
      ultimately show ?thesis by (simp add: True sublist_Cons_right)
    next
      case False
      with p have "p \<in> set ps" using ne by (meson list.set_sel(2))
      then show ?thesis by (rule ih)
    qed
  qed
qed

lemma split_length: "sep \<noteq> [] \<Longrightarrow> sublist sep s \<Longrightarrow> 1 < length (split sep s)"
proof (induction sep s rule: split.induct)
  case (1 sep)
  then show ?case by simp
next
  case (2 sep c cs)
  show ?case
  proof (cases "startswith sep (c # cs)")
    case True
    then show ?thesis using split_nonempty[of sep "drop (length sep - 1) cs"] by (cases "split sep (drop (length sep - 1) cs)") auto
  next
    case False
    with "2.prems" have "sublist sep cs" by (simp add: sublist_Cons_right startswith_prefix)
    with "2.IH"(2)[OF False] "2.prems"(1) have "1 < length (split sep cs)" by simp
    with False show ?thesis by (simp add: Let_def)
  qed
qed

lemma think_free_sublist: "think_free s \<Longrightarrow> sublist t s \<Longrightarrow> think_free t"
  unfolding think_free_def using sublist_order.order.trans by blast

lemma think_step_free: "think_free (think_step r)"
proof (cases "contains ''<think>'' r \<and> contains ''</think>'' r")
  case True
  then have "sublist ''</think>'' r" by (simp add: contains_sublist)
  then have len: "1 < length (split ''</think>'' r)" by (intro split_length) auto
  then have "split ''</think>'' r ! 1 \<in> set (split ''</think>'' r)" by simp
  then have "\<not> sublist ''</think>'' (split ''</think>'' r ! 1)"
    by (intro split_parts_no_sep[of "''</think>''" _ r]) auto
  then have "\<not> sublist ''</think>'' (strip (split ''</think>'' r ! 1))"
    using strip_sublist sublist_order.order.trans by blast
  then show ?thesis using True len by (simp add: think_step_def think_free_def Let_def)
next
  case False
  then show ?thesis by (auto simp: think_step_def think_free_def contains_sublist)
qed

lemma think_step_stripped: "stripped r \<Longrightarrow> stripped (think_step r)"
  by (simp add: think_step_def Let_def strip_stripped)

lemma think_step_id: "think_free r \<Longrightarrow> think_step r = r"
  by (auto simp: think_step_def think_free_def contains_sublist)

lemma re_search_sublist:
  "(\<And>x g. m x = Some g \<Longrightarrow> sublist g x) \<Longrightarrow> re_search m s = Some g \<Longrightarrow> sublist g s"
proof (induction s)
  case Nil
  then show ?case by fastforce
next
  case (Cons c cs)
  show ?case
  proof (cases "m (c # cs)")
    case None
    with Cons show ?thesis by (auto simp: sublist_Cons_right)
  next
    case (Some a)
    with Cons.prems show ?thesis by auto
  qed
qed

lemma re_search_holds:
  "(\<And>x g. m x = Some g \<Longrightarrow> P g) \<Longrightarrow> re_search m s = Some g \<Longrightarrow> P g"
  by (induction s) (auto split: option.splits)

lemma lazy_after_sublist: "lazy_until_fence (dropWhile isspace (drop n x)) = Some g \<Longrightarrow> sublist g x"
proof -
  assume "lazy_until_fence (dropWhile isspace (drop n x)) = Some g"
  then have "sublist g (dropWhile isspace (drop n x))" using lazy_prefix by blast
  moreover have "sublist (dropWhile isspace (drop n x)) (drop n x)" by simp
  moreover have "sublist (drop n x) x" by simp
  ultimately show ?thesis using sublist_order.order.trans by blast
qed

lemma match_sql_sublist: "match_sql_block x = Some g \<Longrightarrow> sublist g x"
  by (auto simp: match_sql_block_def lazy_after_sublist split: if_splits)

lemma match_code_sublist: "match_code_block x = Some g \<Longrightarrow> sublist g x"
  by (auto simp: match_code_block_def lazy_after_sublist split: if_splits)

lemma match_sql_no_fence: "match_sql_block x = Some g \<Longrightarrow> \<not> sublist fence g"
  by (auto simp: match_sql_block_def lazy_no_fence split: if_splits)

lemma match_code_no_fence: "match_code_block x = Some g \<Longrightarrow> \<not> sublist fence g"
  by (auto simp: match_code_block_def lazy_no_fence split: if_splits)

lemma extract_no_fence: "\<not> sublist fence s \<Longrightarrow> extract_block s = s"
  by (simp add: extract_block_def no_fence_sql no_fence_code)

lemma extract_sublist: "sublist (extract_block r) r"
proof (cases "re_search match_sql_block r")
  case None
  show ?thesis
  proof (cases "re_search match_code_block r")
    case None
    with \<open>re_search match_sql_block r = None\<close> show ?thesis by (simp add: extract_block_def)
  next
    case (Some g)
    then have "sublist g r" using re_search_sublist[of match_code_block] match_code_sublist by blast
    then have "sublist (strip g) r" using strip_sublist sublist_order.order.trans by blast
    with None Some show ?thesis by (simp add: extract_block_def)
  qed
next
  case (Some g)
  then have "sublist g r" using re_search_sublist[of match_sql_block] match_sql_sublist by blast
  then have "sublist (strip g) r" using strip_sublist sublist_order.order.trans by blast
  with Some show ?thesis by (simp add: extract_block_def)
qed

lemma extract_stripped: "stripped r \<Longrightarrow> stripped (extract_block r)"
  by (auto simp: extract_block_def strip_stripped split: option.splits)

lemma extract_idem: "extract_block (extract_block r) = extract_block r"
proof (cases "re_search match_sql_block r")
  case None
  show ?thesis
  proof (cases "re_search match_code_block r")
    case None
    with \<open>re_search match_sql_block r = None\<close> show ?thesis by (simp add: extract_block_def)
  next
    case (Some g)
    then have "\<not> sublist fence g"
      using re_search_holds[of match_code_block "\<lambda>g. \<not> sublist fence g"] match_code_no_fence by blast
    then have "\<not> sublist fence (strip g)" using strip_sublist sublist_order.order.trans by blast
    moreover have "extract_block r = strip g" using None Some by (simp add: extract_block_def)
    ultimately show ?thesis by (simp add: extract_no_fence)
  qed
next
  case (Some g)
  then have "\<not> sublist fence g"
    using re_search_holds[of match_sql_block "\<lambda>g. \<not> sublist fence g"] match_sql_no_fence by blast
  then have "\<not> sublist fence (strip g)" using strip_sublist sublist_order.order.trans by blast
  moreover have "extract_block r = strip g" using Some by (simp add: extract_block_def)
  ultimately show ?thesis by (simp add: extract_no_fence)
qed

lemma lstrip_append: "b \<noteq> [] \<Longrightarrow> \<not> isspace (hd b) \<Longrightarrow> lstrip (a @ b) = lstrip a @ b"
  by (cases b) (auto simp: lstrip_def dropWhile_append)

lemma rstrip_append: "a \<noteq> [] \<Longrightarrow> \<not> isspace (last a) \<Longrightarrow> rstrip (a @ b) = a @ rstrip b"
  by (cases a rule: rev_cases) (auto simp: rstrip_def dropWhile_append)

lemma lower_fence_sql: "lower ''```sql'' = ''```sql''"
  by (simp add: lower_def lower_char_def)

lemma ci_startswith_sublist: "ci_startswith p s \<Longrightarrow> sublist (lower p) (lower s)"
proof -
  assume "ci_startswith p s"
  then have "lower p = take (length p) (lower s)"
    by (simp add: ci_startswith_def lower_def take_map)
  then show ?thesis by (metis sublist_take)
qed

lemma lower_append: "lower (a @ b) = lower a @ lower b"
  by (simp add: lower_def)

lemma ci_fence_sql_straddle:
  assumes "p \<noteq> []" "\<not> sublist ''```sql'' (lower p)"
  shows "\<not> ci_startswith ''```sql'' (p @ ''```sql'' @ y)"
proof
  assume a: "ci_startswith ''```sql'' (p @ ''```sql'' @ y)"
  show False
  proof (cases "6 \<le> length p")
    case True
    with a have "ci_startswith ''```sql'' p" by (simp add: ci_startswith_def)
    then show False using assms(2) ci_startswith_sublist lower_fence_sql by metis
  next
    case False
    moreover have "0 < length p" using assms(1) by simp
    ultimately have "length p = 1 \<or> length p = 2 \<or> length p = 3 \<or> length p = 4 \<or> length p = 5"
      by arith
    then consider "length p = 1" | "length p = 2" | "length p = 3" | "length p = 4" | "length p = 5"
      by blast
    then show False
    proof cases
      case 1
      then obtain a1 where "p = [a1]" by (cases p) auto
      with a show False by (simp add: ci_startswith_def lower_def lower_char_def)
    next
      case 2
      then obtain a1 a2 where "p = [a1, a2]" by (cases p; cases "tl p") auto
      with a show False by (simp add: ci_startswith_def lower_def lower_char_def)
    next
      case 3
      then obtain a1 a2 a3 where "p = [a1, a2, a3]" by (cases p; cases "tl p"; cases "tl (tl p)") auto
      with a show False by (simp add: ci_startswith_def lower_def lower_char_def)
    next
      case 4
      then obtain a1 a2 a3 a4 where "p = [a1, a2, a3, a4]"
        by (cases p; cases "tl p"; cases "tl (tl p)"; cases "tl (tl (tl p))") auto
      with a show False by (simp add: ci_startswith_def lower_def lower_char_def)
    next
      case 5
      then obtain a1 a2 a3 a4 a5 where "p = [a1, a2, a3, a4, a5]"
        by (cases p; cases "tl p"; cases "tl (tl p)"; cases "tl (tl (tl p))"; cases "tl (tl (tl (tl p)))") auto
      with a show False by (simp add: ci_startswith_def lower_def lower_char_def)
    qed
  qed
qed

lemma re_search_skip_prefix:
  "\<not> sublist ''```sql'' (lower p) \<Longrightarrow>
   re_search match_sql_block (p @ ''```sql'' @ y) = re_search match_sql_block (''```sql'' @ y)"
proof (induction p)
  case Nil
  then show ?case by simp
next
  case (Cons c p)
  have "\<not> sublist ''```sql'' (lower p)"
    using Cons.prems by (auto simp: lower_def sublist_Cons_right)
  then have ih: "re_search match_sql_block (p @ ''```sql'' @ y) = re_search match_sql_block (''```sql'' @ y)"
    by (rule Cons.IH)
  have "\<not> ci_startswith ''```sql'' ((c # p) @ ''```sql'' @ y)"
    by (rule ci_fence_sql_straddle) (use Cons.prems in auto)
  then have "match_sql_block ((c # p) @ ''```sql'' @ y) = None" by (simp add: match_sql_block_def)
  then show ?case using ih by simp
qed

lemma dropWhile_space_append:
  "a \<noteq> [] \<Longrightarrow> \<not> isspace (last a) \<Longrightarrow> dropWhile isspace (a @ z) = dropWhile isspace a @ z"
  by (cases a rule: rev_cases) (auto simp: dropWhile_append)

lemma fence_straddle:
  assumes "a \<noteq> []" "\<not> sublist fence a" "w \<noteq> []" "isspace (hd w)"
  shows "\<not> prefix fence (a @ w @ z)"
proof
  assume p: "prefix fence (a @ w @ z)"
  obtain s w' where w: "w = s # w'" "isspace s" using assms(3,4) by (cases w) auto
  have ns: "\<not> isspace (CHR 0x60)" by (simp add: isspace_def)
  show False
  proof (cases "3 \<le> length a")
    case True
    then have "prefix fence a" using p
      by (simp add: startswith_prefix[symmetric] startswith_def fence_def)
    then show False using assms(2) by auto
  next
    case False
    moreover have "0 < length a" using assms(1) by simp
    ultimately have "length a = 1 \<or> length a = 2" by arith
    then consider "length a = 1" | "length a = 2" by blast
    then show False
    proof cases
      case 1
      then obtain a1 where "a = [a1]" by (cases a) auto
      with p w ns show False by (auto simp: fence_def)
    next
      case 2
      then obtain a1 a2 where "a = [a1, a2]" by (cases a; cases "tl a") auto
      with p w ns show False by (auto simp: fence_def)
    qed
  qed
qed

lemma lazy_core:
  assumes "\<forall>c\<in>set w. isspace c" "a = [] \<or> (\<not> isspace (last a) \<and> w \<noteq> [])" "\<not> sublist fence a"
  shows "lazy_until_fence (a @ w @ fence @ rest) = Some a"
  using assms
proof (induction a)
  case Nil
  have "dropWhile isspace (w @ fence @ rest) = dropWhile isspace (fence @ rest)"
    by (rule dropWhile_append2) (use Nil.prems(1) in auto)
  then have d: "dropWhile isspace (w @ fence @ rest) = fence @ rest"
    by (simp add: fence_def isspace_def)
  obtain c cs where cs: "w @ fence @ rest = c # cs" by (cases "w @ fence @ rest") (auto simp: fence_def)
  have "lazy_until_fence (c # cs) = Some []"
    using d cs by (simp add: startswith_prefix)
  then show ?case using cs by simp
next
  case (Cons c a)
  have la: "\<not> isspace (last (c # a))" and wn: "w \<noteq> []" using Cons.prems(2) by auto
  have nf: "\<not> sublist fence a" using Cons.prems(3) by (auto simp: sublist_Cons_right)
  have "a = [] \<or> (\<not> isspace (last a) \<and> w \<noteq> [])" using la wn by auto
  then have ih: "lazy_until_fence (a @ w @ fence @ rest) = Some a"
    using Cons.IH Cons.prems(1) nf by blast
  define a' where "a' = dropWhile isspace (c # a)"
  have d: "dropWhile isspace ((c # a) @ w @ fence @ rest) = a' @ w @ fence @ rest"
    unfolding a'_def using la by (intro dropWhile_space_append) auto
  have a'ne: "a' \<noteq> []" unfolding a'_def using la
    by (metis dropWhile_eq_Nil_conv last_in_set list.distinct(1))
  have "sublist a' (c # a)" unfolding a'_def by (rule sublist_dropWhile)
  then have nfa: "\<not> sublist fence a'" using Cons.prems(3) sublist_order.order.trans by blast
  have "isspace (hd w)" using wn Cons.prems(1) by (cases w) auto
  then have "\<not> prefix fence (a' @ w @ fence @ rest)"
    using fence_straddle[OF a'ne nfa wn] by blast
  then have "\<not> startswith fence (dropWhile isspace (c # a @ w @ fence @ rest))"
    using d by (simp add: startswith_prefix)
  then show ?case using ih by simp
qed

lemma strip_decomp:
  "\<exists>l r. s = l @ strip s @ r \<and> (\<forall>c\<in>set l. isspace c) \<and> (\<forall>c\<in>set r. isspace c)"
proof -
  define l where "l = takeWhile isspace s"
  define r where "r = rev (takeWhile isspace (rev (lstrip s)))"
  have 1: "s = l @ lstrip s" by (simp add: l_def lstrip_def)
  have "rev (lstrip s) = takeWhile isspace (rev (lstrip s)) @ dropWhile isspace (rev (lstrip s))" by simp
  then have "lstrip s = rev (dropWhile isspace (rev (lstrip s))) @ r"
    unfolding r_def by (metis rev_append rev_rev_ident)
  then have 2: "lstrip s = strip s @ r" by (simp add: strip_def rstrip_def)
  have "\<forall>c\<in>set l. isspace c" unfolding l_def by (meson set_takeWhileD)
  moreover have "\<forall>c\<in>set r. isspace c" unfolding r_def by (metis set_rev set_takeWhileD)
  ultimately show ?thesis using 1 2 by (metis append_assoc)
qed

lemma lazy_sql_body:
  assumes "\<not> sublist fence sql"
  shows "lazy_until_fence (dropWhile isspace (''\<newline>'' @ sql @ ''\<newline>'' @ fence @ rest)) = Some (strip sql)"
proof -
  obtain l r where lr: "sql = l @ strip sql @ r" "\<forall>c\<in>set l. isspace c" "\<forall>c\<in>set r. isspace c"
    using strip_decomp by blast
  have nl: "isspace CHR ''\<newline>''" by (simp add: isspace_def)
  have nf: "\<not> sublist fence (strip sql)"
    using assms strip_sublist sublist_order.order.trans by blast
  have e1: "''\<newline>'' @ sql @ ''\<newline>'' @ fence @ rest = (''\<newline>'' @ l) @ strip sql @ (r @ ''\<newline>'') @ fence @ rest"
    using lr(1) by (metis append_assoc)
  have e2: "dropWhile isspace ((''\<newline>'' @ l) @ strip sql @ (r @ ''\<newline>'') @ fence @ rest) =
     dropWhile isspace (strip sql @ (r @ ''\<newline>'') @ fence @ rest)"
    by (rule dropWhile_append2) (use lr(2) nl in auto)
  have e: "dropWhile isspace (''\<newline>'' @ sql @ ''\<newline>'' @ fence @ rest) =
     dropWhile isspace (strip sql @ (r @ ''\<newline>'') @ fence @ rest)"
    by (subst e1) (rule e2)
  show ?thesis
  proof (cases "strip sql = []")
    case True
    have "dropWhile isspace ((r @ ''\<newline>'') @ fence @ rest) = dropWhile isspace (fence @ rest)"
      by (rule dropWhile_append2) (use lr(3) nl in auto)
    then have "dropWhile isspace ((r @ ''\<newline>'') @ fence @ rest) = fence @ rest"
      by (simp add: fence_def isspace_def)
    then have "dropWhile isspace (''\<newline>'' @ sql @ ''\<newline>'' @ fence @ rest) = [] @ [] @ fence @ rest"
      using e True by simp
    moreover have "lazy_until_fence ([] @ [] @ fence @ rest) = Some []"
      by (rule lazy_core) (auto simp: fence_def)
    ultimately show ?thesis using True by simp
  next
    case False
    have st: "stripped (strip sql)" by (rule strip_stripped)
    then have h: "\<not> isspace (hd (strip sql))" "\<not> isspace (last (strip sql))"
      using False by (auto simp: stripped_def)
    have "dropWhile isspace (strip sql @ (r @ ''\<newline>'') @ fence @ rest) = strip sql @ (r @ ''\<newline>'') @ fence @ rest"
      using False h(1) by (cases "strip sql") auto
    moreover have "lazy_until_fence (strip sql @ (r @ ''\<newline>'') @ fence @ rest) = Some (strip sql)"
      by (rule lazy_core) (use lr(3) nl h(2) nf in auto)
    ultimately show ?thesis using e by simp
  qed
qed

lemma isspace_lower_comp: "isspace \<circ> lower_char = isspace"
  by (rule ext) simp

lemma lstrip_lower: "lstrip (lower s) = lower (lstrip s)"
  by (simp add: lstrip_def lower_def dropWhile_map isspace_lower_comp)

lemma rstrip_lower: "rstrip (lower s) = lower (rstrip s)"
  by (simp add: rstrip_def lower_def dropWhile_map isspace_lower_comp rev_map)

lemma strip_lower: "strip (lower s) = lower (strip s)"
  by (simp add: strip_def lstrip_lower rstrip_lower)

lemma whole_word_decomp:
  assumes "whole_word_at w s i"
  shows "\<exists>pre m post. s = pre @ m @ post \<and> lower m = w \<and> (pre = [] \<or> \<not> isword (last pre))
           \<and> (post = [] \<or> \<not> isword (hd post))"
proof -
  have "s = take i s @ take (length w) (drop i s) @ drop (i + length w) s"
    by (metis add.commute append_take_drop_id drop_drop)
  with assms show ?thesis unfolding whole_word_at_def Let_def by blast
qed

lemma re_test_keyword:
  assumes "w \<in> set ws" "w \<noteq> []" "isword (hd w)" "isword (last w)" "lit ci w (w @ q)"
    and "q = [] \<or> \<not> isword (hd q)"
    and "if p = [] then \<not> wordc prev else \<not> isword (last p)"
  shows "re_test (match_keyword ci ws) prev (p @ w @ q)"
  using assms(7)
proof (induction p arbitrary: prev)
  case Nil
  obtain c cs where w: "w = c # cs" using assms(2) by (cases w) auto
  have 1: "boundary prev (first_char (w @ q))"
    using Nil assms(3) by (simp add: w boundary_def first_char_def)
  have "\<not> wordc (first_char q)" using assms(6) by (cases q) (auto simp: first_char_def)
  then have 2: "boundary (last_char prev (take (length w) (w @ q))) (first_char (drop (length w) (w @ q)))"
    using assms(2,4) by (simp add: boundary_def last_char_def)
  have "match_keyword ci ws prev (w @ q)"
    unfolding match_keyword_def list_ex_iff using 1 2 assms(1,5) by blast
  then show ?case by (simp add: w)
next
  case (Cons c p)
  have "if p = [] then \<not> wordc (Some c) else \<not> isword (last p)"
    using Cons.prems by (auto split: if_splits)
  then have "re_test (match_keyword ci ws) (Some c) (p @ w @ q)" by (rule Cons.IH)
  then show ?case by simp
qed

lemma lit_self: "lit ci w (w @ q)"
  by (simp add: lit_def ci_startswith_def startswith_def)

lemma word_found:
  assumes "contains_word w s" "w \<in> set ws" "w \<noteq> []" "isword (hd w)" "isword (last w)"
  shows "re_test (match_keyword ci ws) None (strip (lower s))"
proof -
  from assms(1) obtain i where "whole_word_at w s i"
    by (auto simp: contains_word_def list_ex_iff)
  then obtain pre m post where d: "s = pre @ m @ post" "lower m = w"
      "pre = [] \<or> \<not> isword (last pre)" "post = [] \<or> \<not> isword (hd post)"
    using whole_word_decomp by blast
  define p where "p = lstrip (lower pre)"
  define q where "q = rstrip (lower post)"
  have ls: "lower s = lower pre @ w @ lower post" using d(1,2) by (simp add: lower_append)
  have nsh: "\<not> isspace (hd w)" and nsl: "\<not> isspace (last w)"
    using assms(4,5) isspace_not_word by blast+
  have "lstrip (lower s) = p @ w @ lower post"
    unfolding ls p_def by (rule lstrip_append) (use assms(3) nsh in auto)
  then have "lstrip (lower s) = (p @ w) @ lower post" by simp
  moreover have "rstrip ((p @ w) @ lower post) = (p @ w) @ q"
    unfolding q_def by (rule rstrip_append) (use assms(3) nsl in auto)
  ultimately have L: "strip (lower s) = p @ w @ q" by (simp add: strip_def)
  have pc: "if p = [] then \<not> wordc None else \<not> isword (last p)"
  proof (cases "p = []")
    case True
    then show ?thesis by simp
  next
    case False
    have "suffix p (lower pre)" unfolding p_def by (rule lstrip_suffix)
    then obtain zs where zs: "lower pre = zs @ p" by (auto simp: suffix_def)
    then have "last p = last (lower pre)" using False by simp
    moreover have "pre \<noteq> []" using zs False by (auto simp: lower_def)
    ultimately have "last p = lower_char (last pre)" by (simp add: lower_def last_map)
    then show ?thesis using False d(3) \<open>pre \<noteq> []\<close> by simp
  qed
  have qc: "q = [] \<or> \<not> isword (hd q)"
  proof (cases "q = []")
    case True
    then show ?thesis by simp
  next
    case False
    have "prefix q (lower post)" unfolding q_def by (rule rstrip_prefix)
    then obtain zs where zs: "lower post = q @ zs" by (auto simp: prefix_def)
    then have "hd q = hd (lower post)" using False by simp
    moreover have "post \<noteq> []" using zs False by (auto simp: lower_def)
    ultimately have "hd q = lower_char (hd post)" by (simp add: lower_def hd_map)
    then show ?thesis using d(4) \<open>post \<noteq> []\<close> by simp
  qed
  show ?thesis unfolding L
    by (rule re_test_keyword[OF assms(2,3,4,5) lit_self qc pc])
qed

lemma direct_words: "w \<in> set direct_dangerous \<Longrightarrow> w \<noteq> [] \<and> isword (hd w) \<and> isword (last w)"
  by (auto simp: direct_dangerous_def isword_def)

lemma generated_direct: "w \<in> set generated_dangerous \<Longrightarrow> w \<in> set direct_dangerous"
  by (auto simp: direct_dangerous_def generated_dangerous_def)

lemma count_zero_iff: "p \<noteq> [] \<Longrightarrow> (count p s = 0) = (\<not> contains p s)"
  by (induction p s rule: count.induct) (auto simp: startswith_def)

lemma occurrences_elect: "occurrences ''select'' (''elect'' @ r) = occurrences ''select'' r"
  by (simp add: startswith_def)

lemma occurrences_select_skip:
  "startswith ''select'' (c # cs) \<Longrightarrow> occurrences ''select'' cs = occurrences ''select'' (drop 5 cs)"
proof -
  assume "startswith ''select'' (c # cs)"
  then have "take 5 cs = ''elect''" by (simp add: startswith_def eval_nat_numeral)
  then have "cs = ''elect'' @ drop 5 cs" by (metis append_take_drop_id)
  then have "occurrences ''select'' cs = occurrences ''select'' (''elect'' @ drop 5 cs)" by simp
  then show ?thesis by (simp only: occurrences_elect)
qed

lemma occurrences_count_select: "occurrences ''select'' s = count ''select'' s"
proof (induction "''select''" s rule: count.induct)
  case 1
  then show ?case by simp
next
  case (2 c cs)
  show ?case
  proof (cases "startswith ''select'' (c # cs)")
    case True
    then show ?thesis using 2(1) occurrences_select_skip[OF True] by (simp add: eval_nat_numeral)
  next
    case False
    then show ?thesis using 2(2) by simp
  qed
qed

lemma occurrences_leading_space:
  assumes "p \<noteq> []" "\<not> isspace (hd p)" "\<forall>c\<in>set l. isspace c"
  shows "occurrences p (l @ x) = occurrences p x"
  using assms(3)
proof (induction l)
  case Nil
  then show ?case by simp
next
  case (Cons c l)
  have "\<not> startswith p (c # l @ x)"
    using assms(1,2) Cons.prems by (cases p) (auto simp: startswith_def)
  then show ?case using Cons by simp
qed

lemma startswith_trailing_space:
  assumes "\<forall>c\<in>set p. \<not> isspace c" "\<forall>c\<in>set r. isspace c"
  shows "startswith p (y @ r) = startswith p y"
proof -
  have "prefix p (y @ r) \<Longrightarrow> prefix p y"
  proof -
    assume "prefix p (y @ r)"
    then consider "prefix p y" | us where "p = y @ us" "prefix us r"
      by (auto simp: prefix_append)
    then show "prefix p y"
    proof cases
      case 1
      then show ?thesis .
    next
      case 2
      show ?thesis
      proof (cases "us = []")
        case True
        with 2 show ?thesis by simp
      next
        case False
        with 2 have "hd us \<in> set p" "hd us \<in> set r"
          by (auto simp: prefix_def)
        with assms show ?thesis by blast
      qed
    qed
  qed
  then show ?thesis by (auto simp: startswith_prefix)
qed

lemma occurrences_trailing_space:
  assumes "p \<noteq> []" "\<forall>c\<in>set p. \<not> isspace c" "\<forall>c\<in>set r. isspace c"
  shows "occurrences p (x @ r) = occurrences p x"
proof (induction x)
  case Nil
  have "occurrences p (r @ []) = occurrences p []"
    by (rule occurrences_leading_space) (use assms in auto)
  then show ?case by simp
next
  case (Cons c x)
  have "startswith p ((c # x) @ r) = startswith p (c # x)"
    by (rule startswith_trailing_space[OF assms(2,3)])
  then show ?case using Cons by simp
qed

lemma occurrences_strip:
  assumes "p \<noteq> []" "\<forall>c\<in>set p. \<not> isspace c"
  shows "occurrences p (strip s) = occurrences p s"
proof -
  obtain l r where lr: "s = l @ strip s @ r" "\<forall>c\<in>set l. isspace c" "\<forall>c\<in>set r. isspace c"
    using strip_decomp by blast
  have "occurrences p (l @ strip s @ r) = occurrences p (strip s @ r)"
    by (rule occurrences_leading_space) (use assms lr(2) in auto)
  also have "\<dots> = occurrences p (strip s)"
    by (rule occurrences_trailing_space[OF assms lr(3)])
  finally show ?thesis using lr(1) by simp
qed

lemma filter_length_mono:
  "(\<And>x. x \<in> set xs \<Longrightarrow> P x \<Longrightarrow> Q x) \<Longrightarrow> length (filter P xs) \<le> length (filter Q xs)"
  by (induction xs) auto

lemma occurrences_positions:
  "occurrences p s = length (filter (\<lambda>i. i < length s \<and> startswith p (drop i s)) [0..<Suc (length s)])"
proof (induction s)
  case Nil
  then show ?case by simp
next
  case (Cons c cs)
  have e: "[0..<Suc (length (c # cs))] = 0 # map Suc [0..<Suc (length cs)]"
    by (metis length_Cons upt_conv_Cons map_Suc_upt zero_less_Suc)
  have "length (filter (\<lambda>i. i < length (c # cs) \<and> startswith p (drop i (c # cs))) [0..<Suc (length (c # cs))])
    = (if startswith p (c # cs) then 1 else 0)
      + length (filter (\<lambda>i. i < length cs \<and> startswith p (drop i cs)) [0..<Suc (length cs)])"
    by (subst e) (simp add: filter_map comp_def del: upt_Suc)
  then show ?case using Cons by simp
qed

lemma whole_word_occurrence:
  assumes "whole_word_at w s i" "w \<noteq> []"
  shows "i < length s \<and> startswith w (drop i (lower s))"
proof -
  from assms(1) have m: "lower (take (length w) (drop i s)) = w"
    by (simp add: whole_word_at_def Let_def)
  then have "length (take (length w) (drop i s)) = length w" by (metis length_map lower_def)
  then have "i < length s" using assms(2) by (cases "i < length s") auto
  moreover have "take (length w) (drop i (lower s)) = w"
    using m by (simp add: lower_def take_map drop_map)
  ultimately show ?thesis by (simp add: startswith_def)
qed

lemma keyword_count_le: "w \<noteq> [] \<Longrightarrow> keyword_count w s \<le> occurrences w (lower s)"
proof -
  assume w: "w \<noteq> []"
  have "length (lower s) = length s" by (simp add: lower_def)
  then have "occurrences w (lower s) =
     length (filter (\<lambda>i. i < length s \<and> startswith w (drop i (lower s))) [0..<Suc (length s)])"
    using occurrences_positions[of w "lower s"] by simp
  moreover have "length (filter (whole_word_at w s) [0..<Suc (length s)])
      \<le> length (filter (\<lambda>i. i < length s \<and> startswith w (drop i (lower s))) [0..<Suc (length s)])"
    by (rule filter_length_mono) (use whole_word_occurrence[OF _ w] in blast)
  ultimately show ?thesis by (simp add: keyword_count_def)
qed

lemma count_select_head:
  "startswith ''select'' L \<Longrightarrow> count ''select'' L = Suc (count ''select'' (drop 6 L))"
  by (cases L) (auto simp: startswith_def eval_nat_numeral)

lemma nested_check:
  assumes "startswith ''select'' L"
  shows "(contains ''select'' (drop 6 L) \<and> 2 < count ''select'' L) = (2 < count ''select'' L)"
proof -
  have "2 < count ''select'' L \<Longrightarrow> contains ''select'' (drop 6 L)"
    using count_select_head[OF assms] count_zero_iff[of "''select''" "drop 6 L"] by auto
  then show ?thesis by blast
qed

lemma validate_sql_query_iff:
  "validate_sql_query sql =
     (\<not> list_ex (\<lambda>pattern. re_test pattern None (strip (lower sql))) dangerous_patterns
      \<and> startswith ''select'' (strip (lower sql))
      \<and> count ''select'' (strip (lower sql)) \<le> 2)"
  using nested_check[of "strip (lower sql)"]
  by (auto simp: validate_sql_query_def Let_def)

lemma select_no_space: "\<forall>c\<in>set ''select''. \<not> isspace c"
  by (simp add: isspace_def)

lemma open_connection_ok:
  "connection_opens st \<Longrightarrow>
   open_connection st = (Inr (), [Connect, Exec set_threads, Exec set_memory_limit])"
  by (auto simp: connection_opens_def open_connection_def execute_def split: sum.splits)

lemma open_connection_down:
  "connect_error st = Some e \<Longrightarrow>
   open_connection st =
     (Inl (RuntimeError (''Failed to initialize DuckDB connection: '' @ e)), [Connect])"
  by (simp add: open_connection_def)

lemma get_connection_ok:
  "connection_opens st \<Longrightarrow>
   get_connection st body =
     (fst body, [Connect, Exec set_threads, Exec set_memory_limit] @ snd body @ [Close])"
  by (simp add: get_connection_def open_connection_ok)

lemma open_connection_connects: "introspections (snd (open_connection st)) = 1"
  by (auto simp: open_connection_def execute_def introspections_def split: option.splits sum.splits)

lemma open_connection_no_invoke: "generation_calls (snd (open_connection st)) = 0"
  by (auto simp: open_connection_def execute_def generation_calls_def split: option.splits sum.splits)

lemma introspections_append: "introspections (a @ b) = introspections a + introspections b"
  by (simp add: introspections_def)

lemma generation_calls_append: "generation_calls (a @ b) = generation_calls a + generation_calls b"
  by (simp add: generation_calls_def)

lemma introspections_execs: "introspections (map (\<lambda>t. Exec (f t)) xs) = 0"
  by (induction xs) (auto simp: introspections_def)

lemma generation_calls_execs: "generation_calls (map (\<lambda>t. Exec (f t)) xs) = 0"
  by (induction xs) (auto simp: generation_calls_def)

lemma body_introspections: "introspections (snd (table_info_body st)) = 0"
  by (auto simp: table_info_body_def execute_def introspections_append introspections_execs
      split: sum.splits) (simp add: introspections_def)+

lemma body_generation_calls: "generation_calls (snd (table_info_body st)) = 0"
  by (auto simp: table_info_body_def execute_def generation_calls_append generation_calls_execs
      split: sum.splits) (simp add: generation_calls_def)+

lemma get_connection_events:
  "snd (get_connection st body) = snd (open_connection st)
   \<or> snd (get_connection st body) = snd (open_connection st) @ snd body @ [Close]"
  by (auto simp: get_connection_def split: prod.splits sum.splits)

lemma get_table_info_events: "snd (get_table_info self) = snd (get_connection (db self) (table_info_body (db self)))"
  by (auto simp: get_table_info_def split: prod.splits sum.splits)

lemma get_table_info_connects: "introspections (snd (get_table_info self)) = 1"
proof -
  have c: "introspections [Close] = 0" by (simp add: introspections_def)
  show ?thesis
    using get_connection_events[of "db self" "table_info_body (db self)"]
    by (auto simp: get_table_info_events introspections_append open_connection_connects
        body_introspections c)
qed

lemma get_table_info_no_invoke: "generation_calls (snd (get_table_info self)) = 0"
proof -
  have c: "generation_calls [Close] = 0" by (simp add: generation_calls_def)
  show ?thesis
    using get_connection_events[of "db self" "table_info_body (db self)"]
    by (auto simp: get_table_info_events generation_calls_append open_connection_no_invoke
        body_generation_calls c)
qed

lemma get_table_info_returns: "\<exists>schema. fst (get_table_info self) = Inr schema"
  by (auto simp: get_table_info_def split: prod.splits sum.splits)

lemma table_info_ok:
  "connection_opens (db self) \<Longrightarrow>
   get_table_info self =
     (case fst (table_info_body (db self)) of
        Inl e \<Rightarrow> Inr (''Error retrieving schema: '' @ str_error e)
      | Inr schema \<Rightarrow> Inr schema,
      [Connect, Exec set_threads, Exec set_memory_limit] @ snd (table_info_body (db self)) @ [Close])"
  by (simp add: get_table_info_def get_connection_ok split: sum.splits)

lemma df_column_shape:
  "df_column df key rs = Inr names \<Longrightarrow> names \<noteq> [] \<Longrightarrow> rs \<noteq> [] \<and> columns df \<noteq> []"
  by (cases rs) (auto simp: cell_def split: sum.splits option.splits if_splits)

lemma column_entries_listed:
  "map (\<lambda>r. (map_of (zip (columns df) r) ''column_name'',
             map_of (zip (columns df) r) ''column_type'')) rs
     = map (\<lambda>(c, t). (Some c, Some t)) cols \<Longrightarrow>
   column_entries df rs = Inr (map column_entry cols)"
proof (induction rs arbitrary: cols)
  case Nil
  then show ?case by simp
next
  case (Cons r rs)
  then obtain ct cols' where c: "cols = ct # cols'" by (cases cols) auto
  obtain cn ty where ct: "ct = (cn, ty)" by (cases ct)
  from Cons.prems have h: "map_of (zip (columns df) r) ''column_name'' = Some cn"
    "map_of (zip (columns df) r) ''column_type'' = Some ty"
    and t: "map (\<lambda>r. (map_of (zip (columns df) r) ''column_name'',
             map_of (zip (columns df) r) ''column_type'')) rs
     = map (\<lambda>(c, t). (Some c, Some t)) cols'"
    by (simp_all add: c ct)
  have "column_entries df rs = Inr (map column_entry cols')" using Cons.IH[OF t] .
  then show ?case using h by (simp add: cell_def c ct column_entry_def)
qed

lemma table_section_normal:
  assumes "run st (''DESCRIBE '' @ u) = Inr df" "lists_columns df cols"
  shows "table_section st u = normal_section u cols"
proof -
  have "column_entries df (rows df) = Inr (map column_entry cols)"
    using assms(2) unfolding lists_columns_def by (rule column_entries_listed)
  then show ?thesis
    using assms(1) by (simp add: table_section_def describe_table_def execute_def normal_section_def)
qed

lemma table_section_failed:
  "describe_table st t = Inl e \<Longrightarrow> table_section st t = placeholder_section t"
  by (simp add: table_section_def placeholder_section_def)

lemma get_table_info_down:
  "connect_error (db self) = Some e \<Longrightarrow>
   get_table_info self =
     (Inr (''Error retrieving schema: Failed to initialize DuckDB connection: '' @ e), [Connect])"
  by (simp add: get_table_info_def get_connection_def open_connection_down)

lemma refresh_schema_eq:
  "refresh_schema self now =
     (fst (get_table_info (db_service self)),
      self\<lparr>cached_schema := Some (projr (fst (get_table_info (db_service self)))),
           schema_cache_time := Some now\<rparr>,
      snd (get_table_info (db_service self)))"
proof -
  obtain s where "fst (get_table_info (db_service self)) = Inr s"
    using get_table_info_returns by blast
  then show ?thesis by (cases "get_table_info (db_service self)") (simp add: refresh_schema_def)
qed

lemma get_schema_info_stale:
  "\<not> fresh self now \<Longrightarrow> get_schema_info self now = refresh_schema self now"
  by (auto simp: fresh_def get_schema_info_def split: option.splits)

lemma get_schema_info_fresh:
  "fresh self now \<Longrightarrow> get_schema_info self now = (Inr (the (cached_schema self)), self, [])"
  by (auto simp: fresh_def get_schema_info_def split: option.splits)

lemma get_schema_info_no_invoke: "generation_calls (snd (snd (get_schema_info self now))) = 0"
proof (cases "fresh self now")
  case True
  then show ?thesis by (simp add: get_schema_info_fresh generation_calls_def)
next
  case False
  then show ?thesis
    by (simp add: get_schema_info_stale refresh_schema_eq get_table_info_no_invoke)
qed

lemma executed_append: "executed (a @ b) = executed a @ executed b"
  by (induction a rule: executed.induct) auto



lemmas ex_defs = table_listing_def users_columns_def sample_run_def sample_service_def
  empty_run_def empty_service_def down_service_def rejecting_chain_def users_cols_def

lemma sample_opens: "connection_opens (db sample_service)"
  by (simp add: connection_opens_def ex_defs set_threads_def set_memory_limit_def startswith_def)

lemma lazy_none_iff: "(lazy_until_fence s = None) = (\<not> sublist fence s)"
proof (induction s)
  case Nil
  then show ?case by (simp add: fence_def)
next
  case (Cons c cs)
  show ?case
  proof (cases "startswith fence (dropWhile isspace (c # cs))")
    case True
    then have "sublist fence (dropWhile isspace (c # cs))" by (simp add: startswith_prefix)
    moreover have "sublist (dropWhile isspace (c # cs)) (c # cs)" by (rule sublist_dropWhile)
    ultimately have "sublist fence (c # cs)" using sublist_order.order.trans by blast
    with True show ?thesis by simp
  next
    case False
    have "\<not> prefix fence (c # cs)"
    proof
      assume p: "prefix fence (c # cs)"
      then have "dropWhile isspace (c # cs) = c # cs" by (rule fence_not_space)
      with p False show False by (simp add: startswith_prefix)
    qed
    with False Cons show ?thesis by (simp add: sublist_Cons_right)
  qed
qed

lemma split_first:
  assumes "sep \<noteq> []" "\<not> sublist sep (a @ butlast sep)"
  shows "split sep (a @ sep @ r) = a # split sep r"
  using assms(2)
proof (induction a)
  case Nil
  obtain c cs where sep: "sep = c # cs" using assms(1) by (cases sep) auto
  show ?case by (simp add: sep startswith_def)
next
  case (Cons x a)
  have "\<not> sublist sep (a @ butlast sep)"
    using Cons.prems by (auto simp: sublist_Cons_right)
  then have ih: "split sep (a @ sep @ r) = a # split sep r" by (rule Cons.IH)
  have "\<not> startswith sep ((x # a) @ sep @ r)"
  proof
    assume "startswith sep ((x # a) @ sep @ r)"
    then have t: "take (length sep) ((x # a) @ sep @ r) = sep" by (simp add: startswith_def)
    have l: "length sep \<le> length ((x # a) @ butlast sep)" by simp
    have "(x # a) @ sep @ r = ((x # a) @ butlast sep) @ (last sep # r)"
      using assms(1) by simp
    then have "take (length sep) ((x # a) @ sep @ r) = take (length sep) ((x # a) @ butlast sep)"
      using l by (metis take_append diff_is_0_eq take_0 append_Nil2)
    with t have "prefix sep ((x # a) @ butlast sep)"
      by (metis take_is_prefix)
    then show False using Cons.prems by auto
  qed
  then show ?case using ih by simp
qed

lemma split_none: "\<not> sublist sep s \<Longrightarrow> split sep s = [s]"
proof (induction sep s rule: split.induct)
  case (1 sep)
  then show ?case by simp
next
  case (2 sep c cs)
  then have "\<not> startswith sep (c # cs)" "\<not> sublist sep cs"
    by (auto simp: sublist_Cons_right startswith_prefix)
  then show ?case using 2 by (simp add: Let_def)
qed

lemma occurrences_pos: "p \<noteq> [] \<Longrightarrow> (0 < occurrences p s) = contains p s"
  by (induction s) (auto simp: startswith_def)

lemma contains_strip:
  assumes "p \<noteq> []" "\<forall>c\<in>set p. \<not> isspace c"
  shows "contains p (strip s) = contains p s"
  using occurrences_strip[OF assms, of s] occurrences_pos[OF assms(1)] by metis

lemma strip_fenced: "strip (fenced p sql suf) = fenced (lstrip p) sql (rstrip suf)"
proof -
  define mid where "mid = lstrip p @ ''```sql\<newline>'' @ sql @ ''\<newline>```''"
  have "lstrip (p @ ''```sql\<newline>'' @ sql @ ''\<newline>```'' @ suf)
      = lstrip p @ ''```sql\<newline>'' @ sql @ ''\<newline>```'' @ suf"
    by (rule lstrip_append) (auto simp: isspace_def)
  then have "lstrip (fenced p sql suf) = mid @ suf" by (simp add: mid_def fenced_def)
  moreover have "rstrip (mid @ suf) = mid @ rstrip suf"
    by (rule rstrip_append) (auto simp: mid_def isspace_def)
  ultimately show ?thesis by (simp add: strip_def mid_def fenced_def)
qed

lemma lower_lstrip_sublist: "sublist (lower (lstrip p)) (lower p)"
proof -
  obtain zs where "p = zs @ lstrip p" using lstrip_suffix[of p] by (auto simp: suffix_def)
  then have "lower p = lower zs @ lower (lstrip p)" by (metis lower_append)
  then show ?thesis by simp
qed

lemma extract_fenced:
  assumes "\<not> sublist ''```sql'' (lower p)" "\<not> sublist fence sql"
  shows "extract_block (fenced p sql r) = strip sql"
proof -
  define body where "body = ''\<newline>'' @ sql @ ''\<newline>'' @ fence @ r"
  have s: "fenced p sql r = p @ ''```sql'' @ body" by (simp add: fenced_def body_def fence_def)
  have "re_search match_sql_block (fenced p sql r) = re_search match_sql_block (''```sql'' @ body)"
    unfolding s using assms(1) by (rule re_search_skip_prefix)
  moreover have "match_sql_block (''```sql'' @ body) = Some (strip sql)"
    using lazy_sql_body[of sql r] assms(2)
    by (simp add: match_sql_block_def ci_startswith_def lower_def body_def)
  ultimately have "re_search match_sql_block (fenced p sql r) = Some (strip sql)" by simp
  then show ?thesis by (simp add: extract_block_def strip_strip)
qed

lemma extract_strip_fenced:
  assumes "\<not> contains ''```sql'' (lower pre)" "\<not> contains fence sql"
  shows "extract_block (strip (fenced pre sql suf)) = strip sql"
proof -
  have "\<not> sublist ''```sql'' (lower (lstrip pre))"
    using assms(1) lower_lstrip_sublist sublist_order.order.trans
    by (auto simp: contains_sublist)
  then show ?thesis
    unfolding strip_fenced using assms(2) by (intro extract_fenced) (simp_all add: contains_sublist)
qed

lemma think_no_space: "\<forall>c\<in>set ''<think>''. \<not> isspace c"
  by (simp add: isspace_def)

lemma think_step_reasoning:
  assumes "contains ''<think>'' (a @ ''</think>'' @ body)"
    and "\<not> contains ''</think>'' (a @ ''</think'')"
    and "\<not> contains ''</think>'' body"
    and "body \<noteq> []" "\<not> isspace (last body)"
  shows "think_step (strip (a @ ''</think>'' @ body)) = strip body"
proof -
  define inp where "inp = a @ ''</think>'' @ body"
  have "lstrip inp = lstrip a @ ''</think>'' @ body"
    unfolding inp_def by (rule lstrip_append) (auto simp: isspace_def)
  then have "lstrip inp = (lstrip a @ ''</think>'' @ body) @ []" by simp
  moreover have "rstrip ((lstrip a @ ''</think>'' @ body) @ []) = (lstrip a @ ''</think>'' @ body) @ rstrip []"
    by (rule rstrip_append) (use assms(4,5) in auto)
  ultimately have s: "strip inp = lstrip a @ ''</think>'' @ body"
    by (simp add: strip_def rstrip_def)
  have t1: "contains ''<think>'' (strip inp)"
    using assms(1) contains_strip[OF _ think_no_space, of inp] by (simp add: inp_def)
  have t2: "contains ''</think>'' (strip inp)"
    unfolding s contains_sublist by (rule sublist_appendI)
  obtain zs where "a = zs @ lstrip a" using lstrip_suffix[of a] by (auto simp: suffix_def)
  then have "a @ ''</think'' = zs @ (lstrip a @ ''</think'') @ []" by simp
  then have "sublist (lstrip a @ ''</think'') (a @ ''</think'')" by (metis sublist_appendI)
  then have "\<not> sublist ''</think>'' (lstrip a @ ''</think'')"
    using assms(2) sublist_order.order.trans by (auto simp: contains_sublist)
  then have "\<not> sublist ''</think>'' (lstrip a @ butlast ''</think>'')" by simp
  then have "split ''</think>'' (lstrip a @ ''</think>'' @ body) = lstrip a # split ''</think>'' body"
    by (intro split_first) auto
  moreover have "split ''</think>'' body = [body]"
    using assms(3) by (intro split_none) (simp add: contains_sublist)
  ultimately have "split ''</think>'' (strip inp) = [lstrip a, body]" by (simp add: s)
  then show ?thesis using t1 t2 by (simp add: think_step_def inp_def)
qed


section \<open>Properties of the program\<close>

text \<open>
  Claim C1, as the code has it. A text that holds one of the words drop, delete, update,
  insert, alter, create, truncate as a whole word, in any case, is rejected by both
  \<open>_validate_sql_query\<close> and \<open>_validate_generated_sql\<close>. The words exec and execute are in
  the list of \<open>_validate_sql_query\<close> only: a text that holds one of them as a whole word is
  rejected by \<open>_validate_sql_query\<close>, and \<open>_validate_generated_sql\<close> does not look for them.
\<close>

theorem mutating_keyword_rejected:
  assumes "contains_word w s"
  shows "(w \<in> set direct_dangerous \<longrightarrow> \<not> validate_sql_query s)
       \<and> (w \<in> set generated_dangerous \<longrightarrow> \<not> validate_generated_sql s)"
proof (intro conjI impI)
  assume w: "w \<in> set direct_dangerous"
  have "re_test (match_keyword True direct_dangerous) None (strip (lower s))"
    using word_found[OF assms w] direct_words[OF w] by blast
  then show "\<not> validate_sql_query s"
    by (simp add: validate_sql_query_def dangerous_patterns_def Let_def)
next
  assume w: "w \<in> set generated_dangerous"
  have "re_test (match_keyword False [w]) None (strip (lower s))"
    using word_found[OF assms, of "[w]"] direct_words[OF generated_direct[OF w]] by simp
  then show "\<not> validate_generated_sql s"
    using w by (auto simp: validate_generated_sql_def Let_def list_ex_iff)
qed

theorem mutating_keyword_rejected_witness:
  "contains_word ''drop'' ''SELECT 1; DROP TABLE users''
   \<and> ''drop'' \<in> set direct_dangerous \<and> ''drop'' \<in> set generated_dangerous
   \<and> \<not> validate_sql_query ''SELECT 1; DROP TABLE users''
   \<and> \<not> validate_generated_sql ''SELECT 1; DROP TABLE users''"
proof -
  have h: "contains_word ''drop'' ''SELECT 1; DROP TABLE users''" by code_simp
  have d: "''drop'' \<in> set direct_dangerous" by (simp add: direct_dangerous_def)
  have g: "''drop'' \<in> set generated_dangerous" by (simp add: generated_dangerous_def)
  show ?thesis using h d g mutating_keyword_rejected[OF h] by blast
qed

text \<open>
  The text \<open>select exec from t\<close> holds exec as a whole word and \<open>_validate_generated_sql\<close>
  accepts it.
\<close>

theorem mutating_keyword_counterexample:
  "contains_word ''exec'' ''select exec from t'' \<and> validate_generated_sql ''select exec from t''"
  by code_simp

text \<open>
  Claim C2 does not hold of the code. The store here cannot be reached: opening the
  connection raises. \<open>get_table_info\<close> catches that and returns the message as a text, so
  the \<open>except\<close> branch of \<open>_get_schema_info\<close>, which raises and leaves the cache as it is,
  is never reached: the schema fetch returns the message as the schema and stores it in the
  cache with the time of the fetch, and \<open>natural_language_to_sql\<close> calls the generator with
  it and returns the generated statement.
\<close>

theorem unreachable_store_swallowed:
  "connect_error (db (db_service unreachable_manager)) = Some ''IO Error''
   \<and> cached_schema unreachable_manager = None
   \<and> schema_cache_time unreachable_manager = None
   \<and> get_table_info (db_service unreachable_manager) =
        (Inr ''Error retrieving schema: Failed to initialize DuckDB connection: IO Error'',
         [Connect])
   \<and> get_schema_info unreachable_manager 0 =
        (Inr ''Error retrieving schema: Failed to initialize DuckDB connection: IO Error'',
         unreachable_manager
           \<lparr>cached_schema :=
              Some ''Error retrieving schema: Failed to initialize DuckDB connection: IO Error'',
            schema_cache_time := Some 0\<rparr>,
         [Connect])
   \<and> natural_language_to_sql unreachable_manager ''Show users'' 0 =
        (Inr ''SELECT * FROM users;'',
         unreachable_manager
           \<lparr>cached_schema :=
              Some ''Error retrieving schema: Failed to initialize DuckDB connection: IO Error'',
            schema_cache_time := Some 0\<rparr>,
         [Connect,
          Invoke ''Error retrieving schema: Failed to initialize DuckDB connection: IO Error''
            ''Show users''])"
proof -
  have c: "clean_sql_output ''SELECT * FROM users;'' = ''SELECT * FROM users;''" by code_simp
  have v: "validate_generated_sql ''SELECT * FROM users;''" by code_simp
  have g: "get_table_info (db_service unreachable_manager) =
        (Inr ''Error retrieving schema: Failed to initialize DuckDB connection: IO Error'',
         [Connect])"
    by (simp add: unreachable_manager_def init_def down_service_def get_table_info_def
        get_connection_def open_connection_def)
  have s: "get_schema_info unreachable_manager 0 =
        (Inr ''Error retrieving schema: Failed to initialize DuckDB connection: IO Error'',
         unreachable_manager
           \<lparr>cached_schema :=
              Some ''Error retrieving schema: Failed to initialize DuckDB connection: IO Error'',
            schema_cache_time := Some 0\<rparr>,
         [Connect])"
    using g by (simp add: get_schema_info_def refresh_schema_def unreachable_manager_def init_def)
  have n: "natural_language_to_sql unreachable_manager ''Show users'' 0 =
        (Inr ''SELECT * FROM users;'',
         unreachable_manager
           \<lparr>cached_schema :=
              Some ''Error retrieving schema: Failed to initialize DuckDB connection: IO Error'',
            schema_cache_time := Some 0\<rparr>,
         [Connect,
          Invoke ''Error retrieving schema: Failed to initialize DuckDB connection: IO Error''
            ''Show users''])"
    unfolding natural_language_to_sql_def s
    by (simp add: unreachable_manager_def init_def accepting_chain_def c v)
  have a: "connect_error (db (db_service unreachable_manager)) = Some ''IO Error''"
    "cached_schema unreachable_manager = None" "schema_cache_time unreachable_manager = None"
    by (simp_all add: unreachable_manager_def init_def down_service_def)
  show ?thesis using a g s n by blast
qed




text \<open>
  Claim C4. When the schema fetch returns and the cleaned text of the generation call is
  rejected by \<open>_validate_generated_sql\<close>, \<open>natural_language_to_sql\<close> raises a RuntimeError
  whose message contains \<open>Generated SQL failed validation\<close>. After the schema fetch the only
  event is the one generation call: the trace holds exactly one generation call, and the
  statements executed are those of the schema fetch.
\<close>

theorem rejected_generation:
  assumes "get_schema_info self now = (Inr schema, self', ev)"
    and "chain self schema question = Inr raw"
    and "\<not> validate_generated_sql (clean_sql_output raw)"
  shows "natural_language_to_sql self question now =
           (Inl (RuntimeError ''Failed to generate SQL query: Generated SQL failed validation''),
            self', ev @ [Invoke schema question])
       \<and> contains ''Generated SQL failed validation''
           ''Failed to generate SQL query: Generated SQL failed validation''
       \<and> generation_calls (ev @ [Invoke schema question]) = 1
       \<and> executed (ev @ [Invoke schema question]) = executed ev"
proof -
  have c: "chain self' = chain self"
    using assms(1)
    by (auto simp: get_schema_info_def refresh_schema_def split: option.splits prod.splits sum.splits if_splits)
  have 1: "natural_language_to_sql self question now =
           (Inl (RuntimeError ''Failed to generate SQL query: Generated SQL failed validation''),
            self', ev @ [Invoke schema question])"
    using assms by (simp add: natural_language_to_sql_def c Let_def)
  have "generation_calls ev = 0" using get_schema_info_no_invoke[of self now] assms(1) by simp
  then have 2: "generation_calls (ev @ [Invoke schema question]) = 1"
    by (simp add: generation_calls_append) (simp add: generation_calls_def)
  have 3: "executed (ev @ [Invoke schema question]) = executed ev"
    by (simp add: executed_append)
  have 4: "contains ''Generated SQL failed validation''
           ''Failed to generate SQL query: Generated SQL failed validation''"
    by (simp add: startswith_def)
  show ?thesis using 1 2 3 4 by blast
qed

theorem rejected_generation_witness:
  "get_schema_info cached_manager 10 = (Inr ''Table: users'', cached_manager, [])
   \<and> chain cached_manager ''Table: users'' ''Remove all users'' = Inr ''DROP TABLE users;''
   \<and> \<not> validate_generated_sql (clean_sql_output ''DROP TABLE users;'')
   \<and> natural_language_to_sql cached_manager ''Remove all users'' 10 =
           (Inl (RuntimeError ''Failed to generate SQL query: Generated SQL failed validation''),
            cached_manager, [] @ [Invoke ''Table: users'' ''Remove all users''])
   \<and> generation_calls ([] @ [Invoke ''Table: users'' ''Remove all users'']) = 1
   \<and> executed ([] @ [Invoke ''Table: users'' ''Remove all users'']) = executed []"
proof -
  have h1: "get_schema_info cached_manager 10 = (Inr ''Table: users'', cached_manager, [])"
    by (simp add: get_schema_info_def cached_manager_def sample_manager_def init_def)
  have h2: "chain cached_manager ''Table: users'' ''Remove all users'' = Inr ''DROP TABLE users;''"
    by (simp add: cached_manager_def sample_manager_def init_def rejecting_chain_def)
  have h3: "\<not> validate_generated_sql (clean_sql_output ''DROP TABLE users;'')"
    by code_simp
  show ?thesis
    using h1 h2 h3 rejected_generation[OF h1 h2 h3] by blast
qed

text \<open>
  Claim C5. Let the connection open and the table listing name the tables
  \<open>pre @ [t] @ post\<close>. When describing \<open>t\<close> fails and every other DESCRIBE answer lists its
  columns, \<open>get_table_info\<close> returns the sections joined by a blank line: the placeholder
  section for \<open>t\<close> and the normal section for every other table.
\<close>

theorem one_table_fails:
  assumes "connection_opens (db self)"
    and "run (db self) ''SHOW TABLES'' = Inr tables_df"
    and "df_column tables_df ''name'' (rows tables_df) = Inr (pre @ [t] @ post)"
    and "describe_table (db self) t = Inl e"
    and "\<forall>u\<in>set pre \<union> set post.
           \<exists>df. run (db self) (''DESCRIBE '' @ u) = Inr df \<and> lists_columns df (cols u)"
  shows "fst (get_table_info self) =
           Inr (join ''\<newline>\<newline>''
                  (map (\<lambda>u. normal_section u (cols u)) pre
                   @ [placeholder_section t]
                   @ map (\<lambda>u. normal_section u (cols u)) post))"
proof -
  have ne: "\<not> df_empty tables_df"
    using df_column_shape[OF assms(3)] by (simp add: df_empty_def)
  have n: "\<And>u. u \<in> set pre \<union> set post \<Longrightarrow> table_section (db self) u = normal_section u (cols u)"
    using assms(5) table_section_normal by blast
  have p: "map (table_section (db self)) pre = map (\<lambda>u. normal_section u (cols u)) pre"
    by (rule map_cong[OF refl]) (use n in auto)
  have q: "map (table_section (db self)) post = map (\<lambda>u. normal_section u (cols u)) post"
    by (rule map_cong[OF refl]) (use n in auto)
  show ?thesis
    using assms(1,2,3) ne
    by (simp add: table_info_ok table_info_body_def execute_def p q
        table_section_failed[OF assms(4)])
qed

theorem one_table_fails_witness:
  "connection_opens (db sample_service)
   \<and> run (db sample_service) ''SHOW TABLES'' = Inr table_listing
   \<and> df_column table_listing ''name'' (rows table_listing) = Inr ([''users''] @ [''orders''] @ [])
   \<and> describe_table (db sample_service) ''orders'' = Inl (StoreError ''Catalog Error'')
   \<and> run (db sample_service) ''DESCRIBE users'' = Inr users_columns
   \<and> lists_columns users_columns (users_cols ''users'')
   \<and> fst (get_table_info sample_service) =
       Inr ''Table: users\<newline>Columns: id (INTEGER), name (VARCHAR)\<newline>\<newline>Table: orders\<newline>Columns: [Error retrieving schema]''"
proof -
  have h2: "run (db sample_service) ''SHOW TABLES'' = Inr table_listing"
    by (simp add: ex_defs)
  have h3: "df_column table_listing ''name'' (rows table_listing) = Inr ([''users''] @ [''orders''] @ [])"
    by (simp add: ex_defs cell_def)
  have h4: "describe_table (db sample_service) ''orders'' = Inl (StoreError ''Catalog Error'')"
    by (simp add: ex_defs describe_table_def execute_def)
  have h5a: "run (db sample_service) ''DESCRIBE users'' = Inr users_columns"
    by (simp add: ex_defs)
  have h5b: "lists_columns users_columns (users_cols ''users'')"
    by (simp add: ex_defs lists_columns_def)
  have h5: "\<forall>u\<in>set [''users''] \<union> set [].
           \<exists>df. run (db sample_service) (''DESCRIBE '' @ u) = Inr df \<and> lists_columns df (users_cols u)"
    using h5a h5b by (simp add: users_cols_def)
  show ?thesis
    using sample_opens h2 h3 h4 h5a h5b one_table_fails[OF sample_opens h2 h3 h4 h5]
    by (simp add: normal_section_def placeholder_section_def column_entry_def users_cols_def)
qed

text \<open>
  Claim C6. Let the time to live be 300 seconds and let a fetch at \<open>t1\<close> find no fresh
  cache. It makes one introspection call and returns. A second fetch at \<open>t2\<close> with
  \<open>t2 - t1 \<le> 300\<close> returns the same text and both fetches together have made one
  introspection call; a second fetch at \<open>t3\<close> with \<open>t3 - t1 > 300\<close> makes a second one.
\<close>

theorem schema_cache_ttl:
  assumes "cache_ttl self = 300" and "\<not> fresh self t1"
  shows "case get_schema_info self t1 of (r1, self1, ev1) \<Rightarrow>
           (\<exists>s. r1 = Inr s) \<and> introspections ev1 = 1
           \<and> (t2 - t1 \<le> 300 \<longrightarrow>
                (case get_schema_info self1 t2 of (r2, self2, ev2) \<Rightarrow>
                   r2 = r1 \<and> introspections (ev1 @ ev2) = 1))
           \<and> (t3 - t1 > 300 \<longrightarrow>
                (case get_schema_info self1 t3 of (r3, self3, ev3) \<Rightarrow>
                   introspections (ev1 @ ev3) = 2))"
proof -
  obtain s where s: "fst (get_table_info (db_service self)) = Inr s"
    using get_table_info_returns by blast
  define self1 where "self1 = self\<lparr>cached_schema := Some s, schema_cache_time := Some t1\<rparr>"
  define ev1 where "ev1 = snd (get_table_info (db_service self))"
  have 1: "get_schema_info self t1 = (Inr s, self1, ev1)"
    using assms(2) s by (simp add: get_schema_info_stale refresh_schema_eq self1_def ev1_def)
  have c1: "introspections ev1 = 1" unfolding ev1_def by (rule get_table_info_connects)
  have f: "\<And>t. fresh self1 t = (t - t1 \<le> 300)"
    using assms(1) by (simp add: fresh_def self1_def)
  have svc: "db_service self1 = db_service self" by (simp add: self1_def)
  have a: "t2 - t1 \<le> 300 \<longrightarrow>
                (case get_schema_info self1 t2 of (r2, self2, ev2) \<Rightarrow>
                   r2 = Inr s \<and> introspections (ev1 @ ev2) = 1)"
  proof
    assume "t2 - t1 \<le> 300"
    then have "get_schema_info self1 t2 = (Inr s, self1, [])"
      using f get_schema_info_fresh[of self1 t2] by (simp add: self1_def)
    then show "case get_schema_info self1 t2 of (r2, self2, ev2) \<Rightarrow>
                   r2 = Inr s \<and> introspections (ev1 @ ev2) = 1"
      using c1 by simp
  qed
  have b: "t3 - t1 > 300 \<longrightarrow>
                (case get_schema_info self1 t3 of (r3, self3, ev3) \<Rightarrow>
                   introspections (ev1 @ ev3) = 2)"
  proof
    assume "t3 - t1 > 300"
    then have "get_schema_info self1 t3 = refresh_schema self1 t3"
      using f get_schema_info_stale by simp
    then have "snd (snd (get_schema_info self1 t3)) = ev1"
      by (simp add: refresh_schema_eq svc ev1_def)
    then show "case get_schema_info self1 t3 of (r3, self3, ev3) \<Rightarrow>
                   introspections (ev1 @ ev3) = 2"
      using c1 by (auto simp: introspections_append split: prod.splits)
  qed
  show ?thesis using 1 c1 a b by simp
qed

theorem schema_cache_ttl_witness:
  "cache_ttl sample_manager = 300 \<and> \<not> fresh sample_manager 0
   \<and> (100::real) - 0 \<le> 300 \<and> (301::real) - 0 > 300
   \<and> (case get_schema_info sample_manager 0 of (r1, self1, ev1) \<Rightarrow>
           (\<exists>s. r1 = Inr s) \<and> introspections ev1 = 1
           \<and> (case get_schema_info self1 100 of (r2, self2, ev2) \<Rightarrow>
                   r2 = r1 \<and> introspections (ev1 @ ev2) = 1)
           \<and> (case get_schema_info self1 301 of (r3, self3, ev3) \<Rightarrow>
                   introspections (ev1 @ ev3) = 2))"
proof -
  have h1: "cache_ttl sample_manager = 300" by (simp add: sample_manager_def init_def)
  have h2: "\<not> fresh sample_manager 0" by (simp add: sample_manager_def init_def fresh_def)
  show ?thesis
    using h1 h2 schema_cache_ttl[OF h1 h2, of 100 301]
    by (auto split: prod.splits)
qed

text \<open>
  Claim C7, as the code has it. \<open>_validate_sql_query\<close> accepts a text only if its trimmed
  form starts with select in any case. It rejects every text in which select stands more
  than twice as a whole word. It counts with \<open>str.count\<close>, which counts select inside
  identifiers too: a text is accepted exactly when its lower-cased trimmed form matches no
  dangerous pattern, starts with select and holds select at most twice as a substring.
\<close>

theorem direct_policy_select:
  "(validate_sql_query a \<longrightarrow> ci_startswith ''select'' (strip a))
   \<and> (2 < keyword_count ''select'' b \<longrightarrow> \<not> validate_sql_query b)
   \<and> (validate_sql_query c =
        (\<not> list_ex (\<lambda>pattern. re_test pattern None (strip (lower c))) dangerous_patterns
         \<and> startswith ''select'' (strip (lower c))
         \<and> count ''select'' (strip (lower c)) \<le> 2))"
proof (intro conjI impI)
  assume "validate_sql_query a"
  then have "startswith ''select'' (lower (strip a))"
    by (simp add: validate_sql_query_iff strip_lower)
  then show "ci_startswith ''select'' (strip a)"
    by (auto simp: startswith_def ci_startswith_def lower_def take_map lower_char_def
        dest: arg_cong[where f = length])
next
  assume k: "2 < keyword_count ''select'' b"
  have "keyword_count ''select'' b \<le> occurrences ''select'' (lower b)"
    by (rule keyword_count_le) simp
  also have "\<dots> = occurrences ''select'' (strip (lower b))"
    by (rule occurrences_strip[symmetric]) (use select_no_space in auto)
  also have "\<dots> = count ''select'' (strip (lower b))" by (rule occurrences_count_select)
  finally have "2 < count ''select'' (strip (lower b))" using k by simp
  then show "\<not> validate_sql_query b" by (simp add: validate_sql_query_iff)
next
  show "validate_sql_query c =
        (\<not> list_ex (\<lambda>pattern. re_test pattern None (strip (lower c))) dangerous_patterns
         \<and> startswith ''select'' (strip (lower c))
         \<and> count ''select'' (strip (lower c)) \<le> 2)"
    by (rule validate_sql_query_iff)
qed

theorem direct_policy_select_witness:
  "validate_sql_query ''SELECT a FROM (SELECT 1)''
   \<and> ci_startswith ''select'' (strip ''SELECT a FROM (SELECT 1)'')
   \<and> 2 < keyword_count ''select'' ''select (select 1), (select 2)''
   \<and> \<not> validate_sql_query ''select (select 1), (select 2)''
   \<and> count ''select'' (strip (lower ''SELECT a FROM (SELECT 1)'')) \<le> 2"
proof -
  have h1: "validate_sql_query ''SELECT a FROM (SELECT 1)''" by code_simp
  have h2: "2 < keyword_count ''select'' ''select (select 1), (select 2)''" by code_simp
  have h3: "count ''select'' (strip (lower ''SELECT a FROM (SELECT 1)'')) \<le> 2" by code_simp
  show ?thesis
    using h1 h2 h3
      direct_policy_select[of "''SELECT a FROM (SELECT 1)''" "''select (select 1), (select 2)''"
        "''SELECT a FROM (SELECT 1)''"]
    by blast
qed

text \<open>
  The text \<open>select selects from (select 1)\<close> starts with select, matches no dangerous
  pattern and holds select twice as a whole word; it is rejected, since \<open>selects\<close> is counted
  as well.
\<close>

theorem direct_policy_select_counterexample:
  "keyword_count ''select'' ''select selects from (select 1)'' = 2
   \<and> startswith ''select'' (strip (lower ''select selects from (select 1)''))
   \<and> \<not> list_ex (\<lambda>pattern. re_test pattern None (strip (lower ''select selects from (select 1)'')))
        dangerous_patterns
   \<and> \<not> validate_sql_query ''select selects from (select 1)''"
  by code_simp

text \<open>
  Claim C8. \<open>_clean_sql_output\<close> is idempotent.
\<close>

theorem clean_idempotent: "clean_sql_output (clean_sql_output s) = clean_sql_output s"
proof -
  define r where "r = think_step (strip s)"
  have c: "clean_sql_output s = extract_block r" by (simp add: clean_alt r_def)
  have "stripped r" unfolding r_def by (intro think_step_stripped strip_stripped)
  then have st: "strip (extract_block r) = extract_block r" by (intro stripped_strip extract_stripped)
  have "think_free r" unfolding r_def by (rule think_step_free)
  then have "think_free (extract_block r)" using extract_sublist think_free_sublist by blast
  then have "think_step (extract_block r) = extract_block r" by (rule think_step_id)
  then show ?thesis by (simp add: c clean_alt[of "extract_block r"] st extract_idem)
qed

theorem clean_idempotent_witness:
  "clean_sql_output (clean_sql_output ''<think>x</think>```\<newline>SELECT 1;\<newline>```'') = ''SELECT 1;''
   \<and> clean_sql_output ''<think>x</think>```\<newline>SELECT 1;\<newline>```'' = ''SELECT 1;''"
proof -
  have h: "clean_sql_output ''<think>x</think>```\<newline>SELECT 1;\<newline>```'' = ''SELECT 1;''" by code_simp
  show ?thesis using h clean_idempotent[of "''<think>x</think>```\<newline>SELECT 1;\<newline>```''"] by simp
qed

text \<open>
  Claim C9, as the code has it. The input is a reasoning part, a prefix, the SQL text in a
  fence labelled sql, and a suffix. Let the prefix hold no opening of a fence labelled sql
  (in any case) and let the SQL text hold no fence. Let the reasoning part be empty and the
  input not hold both \<open><think>\<close> and \<open></think>\<close>; or let the input hold \<open><think>\<close> and the
  reasoning part end in the only \<open></think>\<close> of the input. Then cleaning returns the SQL
  text, trimmed.
\<close>

theorem clean_extracts_fenced:
  assumes "\<not> contains ''```sql'' (lower pre)"
    and "\<not> contains fence sql"
    and "(reasoning = []
            \<and> \<not> (contains ''<think>'' (fenced pre sql suf) \<and> contains ''</think>'' (fenced pre sql suf)))
         \<or> (reasoning = a @ ''</think>''
            \<and> contains ''<think>'' (reasoning @ fenced pre sql suf)
            \<and> \<not> contains ''</think>'' (a @ ''</think'')
            \<and> \<not> contains ''</think>'' (fenced pre sql suf))"
  shows "clean_sql_output (reasoning @ pre @ ''```sql\<newline>'' @ sql @ ''\<newline>```'' @ suf) = strip sql"
proof -
  have f: "reasoning @ pre @ ''```sql\<newline>'' @ sql @ ''\<newline>```'' @ suf = reasoning @ fenced pre sql suf"
    by (simp add: fenced_def)
  from assms(3) show ?thesis
  proof
    assume c: "reasoning = []
            \<and> \<not> (contains ''<think>'' (fenced pre sql suf) \<and> contains ''</think>'' (fenced pre sql suf))"
    then have "think_free (fenced pre sql suf)" by (simp add: think_free_def contains_sublist)
    then have "think_free (strip (fenced pre sql suf))"
      using strip_sublist think_free_sublist by blast
    then have "think_step (strip (fenced pre sql suf)) = strip (fenced pre sql suf)"
      by (rule think_step_id)
    then have "clean_sql_output (reasoning @ fenced pre sql suf) = strip sql"
      using c extract_strip_fenced[OF assms(1,2)] by (simp add: clean_alt)
    then show ?thesis by (simp only: f)
  next
    assume c: "reasoning = a @ ''</think>''
            \<and> contains ''<think>'' (reasoning @ fenced pre sql suf)
            \<and> \<not> contains ''</think>'' (a @ ''</think'')
            \<and> \<not> contains ''</think>'' (fenced pre sql suf)"
    define body where "body = fenced pre sql (rstrip suf)"
    have e: "strip (reasoning @ fenced pre sql suf) = strip (a @ ''</think>'' @ body)"
    proof -
      have "lstrip (a @ ''</think>'' @ fenced pre sql suf) = lstrip a @ ''</think>'' @ fenced pre sql suf"
        by (rule lstrip_append) (auto simp: isspace_def)
      moreover have "lstrip (a @ ''</think>'' @ body) = lstrip a @ ''</think>'' @ body"
        by (rule lstrip_append) (auto simp: isspace_def)
      moreover have "rstrip ((lstrip a @ ''</think>'' @ pre @ ''```sql\<newline>'' @ sql @ ''\<newline>```'') @ suf)
          = (lstrip a @ ''</think>'' @ pre @ ''```sql\<newline>'' @ sql @ ''\<newline>```'') @ rstrip suf"
        by (rule rstrip_append) (auto simp: isspace_def)
      moreover have "rstrip ((lstrip a @ ''</think>'' @ pre @ ''```sql\<newline>'' @ sql @ ''\<newline>```'') @ rstrip suf)
          = (lstrip a @ ''</think>'' @ pre @ ''```sql\<newline>'' @ sql @ ''\<newline>```'') @ rstrip (rstrip suf)"
        by (rule rstrip_append) (auto simp: isspace_def)
      moreover have "rstrip (rstrip suf) = rstrip suf"
        using rstrip_last[of suf] by (intro rstrip_idem) auto
      ultimately show ?thesis using c by (simp add: strip_def fenced_def body_def)
    qed
    have pb: "prefix body (fenced pre sql suf)"
      using rstrip_prefix[of suf] by (auto simp: body_def fenced_def)
    have b1: "\<not> contains ''</think>'' body"
    proof
      assume "contains ''</think>'' body"
      then have "sublist ''</think>'' body" by (simp add: contains_sublist)
      moreover have "sublist body (fenced pre sql suf)" using pb by (rule prefix_imp_sublist)
      ultimately have "sublist ''</think>'' (fenced pre sql suf)"
        by (rule sublist_order.order.trans)
      then show False using c by (simp add: contains_sublist)
    qed
    obtain zs where zs: "suf = rstrip suf @ zs" "\<forall>c\<in>set zs. isspace c"
    proof -
      have "rev suf = takeWhile isspace (rev suf) @ dropWhile isspace (rev suf)" by simp
      then have "suf = rstrip suf @ rev (takeWhile isspace (rev suf))"
        unfolding rstrip_def by (metis rev_append rev_rev_ident)
      moreover have "\<forall>c\<in>set (rev (takeWhile isspace (rev suf))). isspace c"
        by (metis set_rev set_takeWhileD)
      ultimately show ?thesis using that by blast
    qed
    have "a @ ''</think>'' @ fenced pre sql suf = (a @ ''</think>'' @ body) @ zs"
      using zs(1) by (simp add: body_def fenced_def)
    then have "occurrences ''<think>'' (a @ ''</think>'' @ fenced pre sql suf)
        = occurrences ''<think>'' (a @ ''</think>'' @ body)"
      using occurrences_trailing_space[OF _ think_no_space zs(2), of "a @ ''</think>'' @ body"]
      by simp
    then have b0: "contains ''<think>'' (a @ ''</think>'' @ body)"
      using c occurrences_pos[of "''<think>''"] by (metis append_assoc list.distinct(1))
    have b2: "body \<noteq> []" by (simp add: body_def fenced_def)
    have b3: "\<not> isspace (last body)"
    proof (cases "rstrip suf = []")
      case True
      then show ?thesis by (simp add: body_def fenced_def isspace_def)
    next
      case False
      then have "last body = last (rstrip suf)" by (simp add: body_def fenced_def)
      then show ?thesis using rstrip_last[of suf] False by simp
    qed
    have "think_step (strip (a @ ''</think>'' @ body)) = strip body"
      using c by (intro think_step_reasoning b0 b1 b2 b3) simp
    moreover have "extract_block (strip body) = strip sql"
      unfolding body_def by (rule extract_strip_fenced[OF assms(1,2)])
    ultimately have "clean_sql_output (reasoning @ fenced pre sql suf) = strip sql"
      by (simp add: clean_alt e)
    then show ?thesis by (simp only: f)
  qed
qed

theorem clean_extracts_fenced_witness:
  "\<not> contains ''```sql'' (lower ''Here is the SQL query:\<newline>'')
   \<and> \<not> contains fence '' SELECT * FROM users; ''
   \<and> \<not> (contains ''<think>'' (fenced ''Here is the SQL query:\<newline>'' '' SELECT * FROM users; '' '' Done.'')
        \<and> contains ''</think>'' (fenced ''Here is the SQL query:\<newline>'' '' SELECT * FROM users; '' '' Done.''))
   \<and> clean_sql_output ([] @ ''Here is the SQL query:\<newline>'' @ ''```sql\<newline>'' @ '' SELECT * FROM users; '' @ ''\<newline>```'' @ '' Done.'')
       = ''SELECT * FROM users;''
   \<and> \<not> contains ''```sql'' (lower ''\<newline>'')
   \<and> \<not> contains fence ''SELECT 1;''
   \<and> contains ''<think>'' ((''<think>plan'' @ ''</think>'') @ fenced ''\<newline>'' ''SELECT 1;'' [])
   \<and> \<not> contains ''</think>'' (''<think>plan'' @ ''</think'')
   \<and> \<not> contains ''</think>'' (fenced ''\<newline>'' ''SELECT 1;'' [])
   \<and> clean_sql_output ((''<think>plan'' @ ''</think>'') @ ''\<newline>'' @ ''```sql\<newline>'' @ ''SELECT 1;'' @ ''\<newline>```'' @ [])
       = ''SELECT 1;''"
proof -
  have h1: "\<not> contains ''```sql'' (lower ''Here is the SQL query:\<newline>'')" by code_simp
  have h2: "\<not> contains fence '' SELECT * FROM users; ''" by code_simp
  have h3: "\<not> (contains ''<think>'' (fenced ''Here is the SQL query:\<newline>'' '' SELECT * FROM users; '' '' Done.'')
        \<and> contains ''</think>'' (fenced ''Here is the SQL query:\<newline>'' '' SELECT * FROM users; '' '' Done.''))"
    by code_simp
  have e1: "strip '' SELECT * FROM users; '' = ''SELECT * FROM users;''" by code_simp
  have k1: "\<not> contains ''```sql'' (lower ''\<newline>'')" by code_simp
  have k2: "\<not> contains fence ''SELECT 1;''" by code_simp
  have k3: "contains ''<think>'' ((''<think>plan'' @ ''</think>'') @ fenced ''\<newline>'' ''SELECT 1;'' [])"
    by code_simp
  have k4: "\<not> contains ''</think>'' (''<think>plan'' @ ''</think'')" by code_simp
  have k5: "\<not> contains ''</think>'' (fenced ''\<newline>'' ''SELECT 1;'' [])" by code_simp
  have e2: "strip ''SELECT 1;'' = ''SELECT 1;''" by code_simp
  have d1: "([] = ([]::string)
            \<and> \<not> (contains ''<think>'' (fenced ''Here is the SQL query:\<newline>'' '' SELECT * FROM users; '' '' Done.'')
               \<and> contains ''</think>'' (fenced ''Here is the SQL query:\<newline>'' '' SELECT * FROM users; '' '' Done.'')))
         \<or> ([] = [] @ ''</think>''
            \<and> contains ''<think>'' ([] @ fenced ''Here is the SQL query:\<newline>'' '' SELECT * FROM users; '' '' Done.'')
            \<and> \<not> contains ''</think>'' ([] @ ''</think'')
            \<and> \<not> contains ''</think>'' (fenced ''Here is the SQL query:\<newline>'' '' SELECT * FROM users; '' '' Done.''))"
    using h3 by blast
  have d2: "(''<think>plan'' @ ''</think>'' = []
            \<and> \<not> (contains ''<think>'' (fenced ''\<newline>'' ''SELECT 1;'' [])
               \<and> contains ''</think>'' (fenced ''\<newline>'' ''SELECT 1;'' [])))
         \<or> (''<think>plan'' @ ''</think>'' = ''<think>plan'' @ ''</think>''
            \<and> contains ''<think>'' ((''<think>plan'' @ ''</think>'') @ fenced ''\<newline>'' ''SELECT 1;'' [])
            \<and> \<not> contains ''</think>'' (''<think>plan'' @ ''</think'')
            \<and> \<not> contains ''</think>'' (fenced ''\<newline>'' ''SELECT 1;'' []))"
    using k3 k4 k5 by blast
  note t1 = clean_extracts_fenced[OF h1 h2 d1, unfolded e1]
  note t2 = clean_extracts_fenced[OF k1 k2 d2, unfolded e2]
  show ?thesis using h1 h2 h3 k1 k2 k3 k4 k5 t1 t2 by blast
qed

text \<open>
  With a prefix that holds a labelled fence of its own, cleaning returns the text of that
  first fence.
\<close>

theorem clean_extracts_fenced_counterexample:
  "clean_sql_output (''```sql\<newline>SELECT 2\<newline>```\<newline>'' @ ''```sql\<newline>'' @ ''SELECT 1'' @ ''\<newline>```'' @ '''')
     = ''SELECT 2''
   \<and> strip ''SELECT 1'' \<noteq> ''SELECT 2''"
  by code_simp

text \<open>
  Claim C10. When the connection opens and the table listing has no rows,
  \<open>get_table_info\<close> returns the text \<open>No tables found in database.\<close>
\<close>

theorem empty_store_schema:
  assumes "connection_opens (db self)"
    and "run (db self) ''SHOW TABLES'' = Inr tables_df"
    and "rows tables_df = []"
  shows "fst (get_table_info self) = Inr ''No tables found in database.''"
  using assms by (simp add: table_info_ok table_info_body_def execute_def df_empty_def)

theorem empty_store_schema_witness:
  "connection_opens (db empty_service)
   \<and> run (db empty_service) ''SHOW TABLES'' = Inr \<lparr>columns = [''name''], rows = []\<rparr>
   \<and> rows \<lparr>columns = [''name''], rows = []\<rparr> = []
   \<and> fst (get_table_info empty_service) = Inr ''No tables found in database.''"
proof -
  have h1: "connection_opens (db empty_service)"
    by (simp add: connection_opens_def ex_defs)
  have h2: "run (db empty_service) ''SHOW TABLES'' = Inr \<lparr>columns = [''name''], rows = []\<rparr>"
    by (simp add: ex_defs)
  have h3: "rows \<lparr>columns = [''name''], rows = []\<rparr> = []" by simp
  show ?thesis using h1 h2 h3 empty_store_schema[OF h1 h2 h3] by blast
qed

end
